theory Spec2Isabelle
  imports Main "HOL-Library.Multiset"
begin

section \<open>The worker pool of SecUtility::Threading (ThreadPool.hpp)\<close>

text \<open>
  The class \<^verbatim>\<open>ThreadPool\<close> owns a vector of worker threads, a queue of type-erased
  tasks, a mutex with its condition variable and a stop flag. The embedding below is an
  interleaving model: every block of the source that runs under \<^verbatim>\<open>m_Mutex\<close> is one atomic
  step, and the statements a thread runs between two critical sections are steps of their
  own. A thread that the source blocks (in \<^verbatim>\<open>m_Condition.wait\<close>, in \<^verbatim>\<open>join\<close>, in
  \<^verbatim>\<open>future::get\<close>) has no step: the step function returns \<open>None\<close>.
\<close>

subsection \<open>Data model\<close>

text \<open>The exceptions that the modelled code and the standard library components it uses throw.\<close>

datatype error =
    runtime_error string
  | system_error
  | length_error
  | bad_alloc
  | future_error_promise_already_satisfied
  | future_error_no_state

text \<open>
  The bound callable of \<^verbatim>\<open>Submit\<close> (\<^verbatim>\<open>func\<close> with its \<^verbatim>\<open>args\<close>), seen from the pool: when it
  is invoked it either returns a value or throws.
\<close>

datatype 'a behaviour = Returns 'a | Throws string

text \<open>The content of the shared state of a \<^verbatim>\<open>std::packaged_task\<close> once it is ready.\<close>

datatype 'a outcome = Value 'a | Failure string

text \<open>
  An entry of \<^verbatim>\<open>m_Tasks\<close>: the closure \<^verbatim>\<open>[task = std::move(packagedTask)] { (*task)(); }\<close>.
  \<open>slot\<close> is the address of the shared state that \<^verbatim>\<open>std::make_shared\<close> allocated for the
  packaged task (an index into \<open>shared\<close> below), \<open>body\<close> the callable it wraps.
\<close>

datatype 'a task = Task (slot: nat) (body: "'a behaviour")

text \<open>
  The program counter of one worker thread inside \<^verbatim>\<open>WorkerThread\<close>:
  \<open>Waiting\<close> at the top of the loop (lines 108-112, not holding a task),
  \<open>Holding t\<close> after the critical section released the lock (line 121) with \<open>t\<close> moved out of
  the queue, \<open>Executing t\<close> inside \<^verbatim>\<open>task()\<close> (line 126), \<open>Exited\<close> after \<^verbatim>\<open>return\<close>
  (line 116), and \<open>Crashed e\<close> when an exception left \<^verbatim>\<open>WorkerThread\<close>.
\<close>

datatype 'a worker = Waiting | Holding "'a task" | Executing "'a task" | Exited | Crashed error

text \<open>
  The progress of \<^verbatim>\<open>~ThreadPool\<close>: not called, joining the worker with the given index
  (the loop of lines 89-95), returned.
\<close>

datatype lifetime = Alive | Joining nat | Destroyed

text \<open>
  The members \<^verbatim>\<open>m_Workers\<close>, \<^verbatim>\<open>m_Tasks\<close>, \<^verbatim>\<open>m_Stop\<close> of the class, the shared states of
  the packaged tasks created so far (\<open>None\<close> while not ready), and the history of the pool:
  the slots of the tasks in the order in which \<^verbatim>\<open>Submit\<close> enqueued them, workers dequeued
  them, began to run them and finished running them.
\<close>

record 'a pool =
  m_Workers :: "'a worker list"
  m_Tasks :: "'a task list"
  m_Stop :: bool
  shared :: "'a outcome option list"
  accepted :: "nat list"
  dequeued :: "nat list"
  begun :: "nat list"
  finished :: "nat list"
  phase :: lifetime

text \<open>
  What the platform decides: the value of \<^verbatim>\<open>std::thread::hardware_concurrency()\<close> (which
  may be 0), the number of threads the process can still create (creating one more throws
  \<^verbatim>\<open>std::system_error\<close>), \<^verbatim>\<open>max_size()\<close> of the vector of workers (\<^verbatim>\<open>reserve\<close> beyond it
  throws \<^verbatim>\<open>std::length_error\<close>), and the number of thread objects for which the allocator
  has memory (\<^verbatim>\<open>reserve\<close> beyond it throws \<^verbatim>\<open>std::bad_alloc\<close>).
\<close>

record environment =
  hardware_concurrency :: nat
  thread_limit :: nat
  vector_max_size :: nat
  vector_memory :: nat

subsection \<open>Construction\<close>

text \<open>
  The loop of lines 39-42, \<^verbatim>\<open>for (i = 0; i < threadCount; ++i) m_Workers.emplace_back(...)\<close>.
  It returns the workers started and the exception that stopped it, if any.
\<close>

function ctor_loop :: "nat \<Rightarrow> nat \<Rightarrow> nat \<Rightarrow> 'a worker list \<Rightarrow> 'a worker list \<times> error option" where
  "ctor_loop limit threadCount i ws =
     (if i < threadCount
      then (if length ws < limit
            then ctor_loop limit threadCount (Suc i) (ws @ [Waiting])
            else (ws, Some system_error))
      else (ws, None))"
  by pat_completeness auto
termination
  by (relation "measure (\<lambda>(limit, threadCount, i, ws). threadCount - i)") auto

text \<open>
  \<^verbatim>\<open>m_Workers.reserve(threadCount)\<close>, line 37: the exception it throws, if any. No worker
  has been started when it throws.
\<close>

definition reserve :: "environment \<Rightarrow> nat \<Rightarrow> error option" where
  "reserve env threadCount =
     (if vector_max_size env < threadCount then Some length_error
      else if vector_memory env < threadCount then Some bad_alloc
      else None)"

text \<open>
  How a call of the constructor (lines 34-43) ends. The constructor has no handler, and
  \<^verbatim>\<open>~ThreadPool\<close> is not run for an object whose constructor throws.
  \<open>Constructed p\<close>: it returns the pool \<open>p\<close>.
  \<open>Propagated e\<close>: the exception \<open>e\<close> reaches the caller and no worker had been started.
  \<open>Abandoned ws e\<close>: the exception \<open>e\<close> leaves the body of the constructor while the
  workers \<open>ws\<close> are started; nothing has set the stop flag or joined them. Unwinding then
  destroys \<^verbatim>\<open>m_Stop\<close>, \<^verbatim>\<open>m_Condition\<close>, \<^verbatim>\<open>m_Mutex\<close>, \<^verbatim>\<open>m_Tasks\<close> and \<^verbatim>\<open>m_Workers\<close>, in that order
  (the reverse of lines 131-135), while those workers use the mutex and the condition
  variable and their threads are joinable. The language does not define what the call does
  from there, and the model does not say.
\<close>

datatype 'a constructed =
    Constructed "'a pool"
  | Propagated error
  | Abandoned "'a worker list" error

definition ThreadPool :: "environment \<Rightarrow> nat \<Rightarrow> 'a constructed" where
  "ThreadPool env numThreads =
     (let threadCount = max numThreads 1 in
      case reserve env threadCount of
        Some e \<Rightarrow> Propagated e
      | None \<Rightarrow>
          (case ctor_loop (thread_limit env) threadCount 0 [] of
             (ws, None) \<Rightarrow>
               Constructed \<lparr>m_Workers = ws, m_Tasks = [], m_Stop = False, shared = [],
                            accepted = [], dequeued = [], begun = [], finished = [],
                            phase = Alive\<rparr>
           | (ws, Some e) \<Rightarrow> (if ws = [] then Propagated e else Abandoned ws e)))"

definition ThreadCount :: "'a pool \<Rightarrow> nat" where
  "ThreadCount s = length (m_Workers s)"

subsection \<open>Submitting\<close>

text \<open>
  The handle returned by \<^verbatim>\<open>Submit\<close> is a \<^verbatim>\<open>std::future\<close>: while valid it refers to the
  shared state of its packaged task, and it refers to none once \<^verbatim>\<open>get\<close> has returned.
\<close>

datatype future = Future (state: "nat option")

text \<open>
  \<^verbatim>\<open>Submit\<close>, lines 55-78. The packaged task and its future are built first (lines 55-66);
  under the lock a stopped pool throws (lines 70-73), and unwinding releases the packaged
  task and the future, so that nothing of them remains; otherwise the closure is put at
  the back of the queue (line 74) and the future is returned. The result pairs what the
  caller gets with the state of the pool afterwards.
\<close>

definition Submit :: "'a behaviour \<Rightarrow> 'a pool \<Rightarrow> (error + future) \<times> 'a pool" where
  "Submit func s =
     (let packagedTask = Task (length (shared s)) func;
          result = Future (Some (slot packagedTask))
      in if m_Stop s
         then (Inl (runtime_error ''Cannot submit task to stopped ThreadPool''), s)
         else (Inr result,
               s\<lparr>m_Tasks := m_Tasks s @ [packagedTask],
                 shared := shared s @ [None],
                 accepted := accepted s @ [slot packagedTask]\<rparr>))"

subsection \<open>The worker loop\<close>

text \<open>
  \<^verbatim>\<open>std::packaged_task::operator()\<close>, called by the closure: it runs the stored callable and
  makes the shared state ready with the value returned or the exception thrown. It throws
  \<^verbatim>\<open>std::future_error\<close> itself when the shared state is already ready or absent.
\<close>

fun outcome_of :: "'a behaviour \<Rightarrow> 'a outcome" where
  "outcome_of (Returns v) = Value v"
| "outcome_of (Throws e) = Failure e"

definition packaged_task_call :: "'a task \<Rightarrow> 'a outcome option list \<Rightarrow> error + 'a outcome option list" where
  "packaged_task_call t sh =
     (if length sh \<le> slot t then Inl future_error_no_state
      else if sh ! slot t \<noteq> None then Inl future_error_promise_already_satisfied
      else Inr (sh[slot t := Some (outcome_of (body t))]))"

text \<open>
  One step of worker \<open>w\<close> in \<^verbatim>\<open>WorkerThread\<close>, lines 104-129.
  From \<open>Waiting\<close>: the critical section of lines 111-121. The wait of line 112 lets the
  worker through only when \<^verbatim>\<open>m_Stop || !m_Tasks.empty()\<close>; then it returns (line 116) or
  moves the front of the queue out (lines 119-120).
  From \<open>Holding t\<close>: the call of line 126 begins; the test of line 124 holds, since every
  entry of the queue is a closure made by \<^verbatim>\<open>Submit\<close>.
  From \<open>Executing t\<close>: the call returns and the worker is back at the top of the loop; an
  exception leaving the call would leave \<^verbatim>\<open>WorkerThread\<close>, which has no handler.
\<close>

definition WorkerThread :: "nat \<Rightarrow> 'a pool \<Rightarrow> 'a pool option" where
  "WorkerThread w s =
     (if length (m_Workers s) \<le> w then None
      else case m_Workers s ! w of
        Waiting \<Rightarrow>
          (if \<not> (m_Stop s \<or> m_Tasks s \<noteq> []) then None
           else if m_Stop s \<and> m_Tasks s = []
           then Some (s\<lparr>m_Workers := (m_Workers s)[w := Exited]\<rparr>)
           else Some (s\<lparr>m_Workers := (m_Workers s)[w := Holding (hd (m_Tasks s))],
                       m_Tasks := tl (m_Tasks s),
                       dequeued := dequeued s @ [slot (hd (m_Tasks s))]\<rparr>))
      | Holding t \<Rightarrow>
          Some (s\<lparr>m_Workers := (m_Workers s)[w := Executing t],
                  begun := begun s @ [slot t]\<rparr>)
      | Executing t \<Rightarrow>
          (case packaged_task_call t (shared s) of
             Inl e \<Rightarrow> Some (s\<lparr>m_Workers := (m_Workers s)[w := Crashed e]\<rparr>)
           | Inr sh \<Rightarrow>
               Some (s\<lparr>m_Workers := (m_Workers s)[w := Waiting],
                       shared := sh,
                       finished := finished s @ [slot t]\<rparr>))
      | Exited \<Rightarrow> None
      | Crashed e \<Rightarrow> None)"

subsection \<open>Destruction\<close>

text \<open>
  One step of \<^verbatim>\<open>~ThreadPool\<close>, lines 81-96: first the stop flag is set under the lock
  (lines 83-87); then each worker is joined in turn, and \<^verbatim>\<open>join\<close> returns only when that
  worker has returned from \<^verbatim>\<open>WorkerThread\<close>; after the last one the destructor returns.
  The test \<^verbatim>\<open>worker.joinable()\<close> of line 91 holds for every worker, since nothing else
  joins or detaches one.
\<close>

definition ThreadPool_dtor :: "'a pool \<Rightarrow> 'a pool option" where
  "ThreadPool_dtor s =
     (case phase s of
        Alive \<Rightarrow> Some (s\<lparr>m_Stop := True, phase := Joining 0\<rparr>)
      | Joining i \<Rightarrow>
          (if i < length (m_Workers s)
           then (if m_Workers s ! i = Exited then Some (s\<lparr>phase := Joining (Suc i)\<rparr>) else None)
           else Some (s\<lparr>phase := Destroyed\<rparr>))
      | Destroyed \<Rightarrow> None)"

subsection \<open>Executions\<close>

text \<open>
  What can happen next to a pool: some thread calls \<^verbatim>\<open>Submit\<close>, a worker takes its next
  step, or the thread that destroys the pool takes the next step of the destructor.
\<close>

datatype 'a action = Call_Submit "'a behaviour" | Step_Worker nat | Step_Destructor

fun fire :: "'a action \<Rightarrow> 'a pool \<Rightarrow> 'a pool option" where
  "fire (Call_Submit func) s = Some (snd (Submit func s))"
| "fire (Step_Worker w) s = WorkerThread w s"
| "fire Step_Destructor s = ThreadPool_dtor s"

fun run :: "'a action list \<Rightarrow> 'a pool \<Rightarrow> 'a pool option" where
  "run [] s = Some s"
| "run (a # as) s = (case fire a s of None \<Rightarrow> None | Some s' \<Rightarrow> run as s')"

subsection \<open>Reading a result\<close>

text \<open>
  \<^verbatim>\<open>std::future::get\<close> on the handle that \<^verbatim>\<open>Submit\<close> returned: it blocks until the shared
  state is ready, then hands the outcome over (the value, or the stored exception rethrown)
  and releases the shared state, after which \<^verbatim>\<open>valid()\<close> is false. Calling it on a handle
  that refers to no shared state is outside its contract: the standard leaves the behaviour
  undefined, and the model marks the call \<open>Undefined\<close> without saying what it does.
\<close>

datatype 'a got = Blocks | Got "'a outcome" | Undefined

definition future_get :: "future \<Rightarrow> 'a pool \<Rightarrow> 'a got \<times> future" where
  "future_get fut s =
     (case state fut of
        None \<Rightarrow> (Undefined, fut)
      | Some h \<Rightarrow>
          (if length (shared s) \<le> h then (Undefined, fut)
           else case shared s ! h of
                  None \<Rightarrow> (Blocks, fut)
                | Some oc \<Rightarrow> (Got oc, Future None)))"

subsection \<open>The process-wide pool\<close>






section \<open>Notions used by the statements\<close>

subsection \<open>Tasks held by workers\<close>

text \<open>
  The slot of the task that a worker has dequeued and not begun to run, and of the task
  whose call it is inside, as multisets with at most one element; summed over
  \<open>m_Workers\<close> they count the tasks in flight.
\<close>

fun holding :: "'a worker \<Rightarrow> nat multiset" where
  "holding (Holding t) = {#slot t#}"
| "holding _ = {#}"

fun executing :: "'a worker \<Rightarrow> nat multiset" where
  "executing (Executing t) = {#slot t#}"
| "executing _ = {#}"

fun is_executing :: "'a worker \<Rightarrow> bool" where
  "is_executing (Executing t) = True"
| "is_executing _ = False"

text \<open>The tasks that the queue and the workers still refer to.\<close>

fun in_hand :: "'a worker \<Rightarrow> 'a task list" where
  "in_hand (Holding t) = [t]"
| "in_hand (Executing t) = [t]"
| "in_hand _ = []"

definition pending_tasks :: "'a pool \<Rightarrow> 'a task list" where
  "pending_tasks s = m_Tasks s @ concat (map in_hand (m_Workers s))"

subsection \<open>Invariants of the executions\<close>

text \<open>
  Slots are handed out in the order of acceptance, and the tasks leave the queue in that
  order: what has been dequeued, followed by what is queued, is what has been accepted.
\<close>

definition inv_queue :: "'a pool \<Rightarrow> bool" where
  "inv_queue s \<longleftrightarrow>
     accepted s = [0..<length (shared s)] \<and>
     dequeued s @ map slot (m_Tasks s) = accepted s"

text \<open>
  A dequeued task has begun to run or is held by a worker; a task that has begun to run
  has finished or is being run by a worker.
\<close>

definition inv_flow :: "'a pool \<Rightarrow> bool" where
  "inv_flow s \<longleftrightarrow>
     mset (dequeued s) = mset (begun s) + sum_list (map holding (m_Workers s)) \<and>
     mset (begun s) = mset (finished s) + sum_list (map executing (m_Workers s))"

text \<open>The shared states that are ready are those of the finished tasks.\<close>

definition inv_ready :: "'a pool \<Rightarrow> bool" where
  "inv_ready s \<longleftrightarrow>
     (\<forall>h. h \<in> set (finished s) \<longleftrightarrow> h < length (shared s) \<and> shared s ! h \<noteq> None)"

definition inv_core :: "'a pool \<Rightarrow> bool" where
  "inv_core s \<longleftrightarrow> inv_queue s \<and> inv_flow s \<and> inv_ready s"

text \<open>
  No worker has crashed; the stop flag is set exactly once the destructor runs; a worker
  has returned only with the flag set and the queue empty; the workers already joined have
  returned, and the destructor joins no more workers than there are.
\<close>

definition inv_life :: "'a pool \<Rightarrow> bool" where
  "inv_life s \<longleftrightarrow>
     (\<forall>j e. j < length (m_Workers s) \<longrightarrow> m_Workers s ! j \<noteq> Crashed e) \<and>
     (phase s \<noteq> Alive \<longleftrightarrow> m_Stop s) \<and>
     (\<forall>i. phase s = Joining i \<longrightarrow> i \<le> length (m_Workers s)) \<and>
     (\<forall>j. j < length (m_Workers s) \<longrightarrow> m_Workers s ! j = Exited \<longrightarrow> m_Stop s \<and> m_Tasks s = []) \<and>
     (\<forall>i j. phase s = Joining i \<longrightarrow> j < i \<longrightarrow> j < length (m_Workers s) \<longrightarrow> m_Workers s ! j = Exited) \<and>
     (\<forall>j. phase s = Destroyed \<longrightarrow> j < length (m_Workers s) \<longrightarrow> m_Workers s ! j = Exited)"

text \<open>With a single worker the tasks begin to run in the order in which they are dequeued.\<close>

definition inv_single :: "'a pool \<Rightarrow> bool" where
  "inv_single s \<longleftrightarrow>
     (length (m_Workers s) = 1 \<longrightarrow>
      dequeued s = begun s @ (case m_Workers s ! 0 of Holding t \<Rightarrow> [slot t] | _ \<Rightarrow> []))"

text \<open>The task of slot \<open>h\<close> wraps \<open>b\<close>, and so does its outcome once it is there.\<close>

definition inv_body :: "nat \<Rightarrow> 'a behaviour \<Rightarrow> 'a pool \<Rightarrow> bool" where
  "inv_body h b s \<longleftrightarrow>
     h < length (shared s) \<and>
     (\<forall>t \<in> set (pending_tasks s). slot t = h \<longrightarrow> body t = b) \<and>
     (\<forall>oc. shared s ! h = Some oc \<longrightarrow> oc = outcome_of b)"

subsection \<open>Work that remains\<close>

text \<open>
  The number of steps a worker still has to take for the task it has in hand (call it,
  return from the call), and whether its thread has yet to return.
\<close>

fun work :: "'a worker \<Rightarrow> nat" where
  "work (Holding t) = 2"
| "work (Executing t) = 1"
| "work _ = 0"

fun unreturned :: "'a worker \<Rightarrow> nat" where
  "unreturned Exited = 0"
| "unreturned (Crashed e) = 0"
| "unreturned _ = 1"

text \<open>
  \<open>remaining\<close>: the number of steps the workers have to take until every accepted task
  has finished (three for a queued task: dequeue it, call it, return from the call).
  \<open>to_go\<close>: the number of steps the workers and the destructor have to take until the
  destructor has returned.
\<close>

definition remaining :: "'a pool \<Rightarrow> nat" where
  "remaining s = 3 * length (m_Tasks s) + sum_list (map work (m_Workers s))"



fun is_worker_step :: "'a action \<Rightarrow> bool" where
  "is_worker_step (Step_Worker w) = True"
| "is_worker_step _ = False"

subsection \<open>A pool right after construction, and a platform for the examples\<close>

definition fresh :: "nat \<Rightarrow> 'a pool" where
  "fresh k = \<lparr>m_Workers = replicate k Waiting, m_Tasks = [], m_Stop = False, shared = [],
      accepted = [], dequeued = [], begun = [], finished = [], phase = Alive\<rparr>"

definition env0 :: environment where
  "env0 = \<lparr>hardware_concurrency = 4, thread_limit = 8, vector_max_size = 1000,
            vector_memory = 1000\<rparr>"

text \<open>A platform on which only one thread can be created.\<close>

definition env1 :: environment where
  "env1 = \<lparr>hardware_concurrency = 4, thread_limit = 1, vector_max_size = 1000,
            vector_memory = 1000\<rparr>"

subsection \<open>Example executions\<close>

text \<open>
  A pool with one worker: two tasks are submitted, the second of which throws; the worker
  runs both; the pool is destroyed. \<open>one_queued\<close> and \<open>two_queued\<close> are the states after the
  first and the second call of \<^verbatim>\<open>Submit\<close>, \<open>demo1_end\<close> the state when the destructor has
  returned.
\<close>

definition demo1_tail :: "nat action list" where
  "demo1_tail = [Step_Worker 0, Step_Worker 0, Step_Worker 0,
                 Step_Worker 0, Step_Worker 0, Step_Worker 0,
                 Step_Destructor, Step_Worker 0, Step_Destructor, Step_Destructor]"

definition demo1 :: "nat action list" where
  "demo1 = Call_Submit (Returns 10) # Call_Submit (Throws ''boom'') # demo1_tail"

definition one_queued :: "nat pool" where
  "one_queued = \<lparr>m_Workers = [Waiting], m_Tasks = [Task 0 (Returns 10)], m_Stop = False,
      shared = [None], accepted = [0], dequeued = [], begun = [], finished = [],
      phase = Alive\<rparr>"

definition two_queued :: "nat pool" where
  "two_queued = \<lparr>m_Workers = [Waiting],
      m_Tasks = [Task 0 (Returns 10), Task 1 (Throws ''boom'')], m_Stop = False,
      shared = [None, None], accepted = [0, 1], dequeued = [], begun = [], finished = [],
      phase = Alive\<rparr>"

definition demo1_end :: "nat pool" where
  "demo1_end = \<lparr>m_Workers = [Exited], m_Tasks = [], m_Stop = True,
      shared = [Some (Value 10), Some (Failure ''boom'')],
      accepted = [0, 1], dequeued = [0, 1], begun = [0, 1], finished = [0, 1],
      phase = Destroyed\<rparr>"

text \<open>
  A pool with two workers: three tasks are submitted, worker 0 dequeues the first and
  worker 1 the second, and worker 1 is the first to call its task.
\<close>

definition racing :: "nat action list" where
  "racing = [Call_Submit (Returns 10), Call_Submit (Throws ''boom''), Call_Submit (Returns 30),
             Step_Worker 0, Step_Worker 1, Step_Worker 1, Step_Worker 0]"

definition racing_end :: "nat pool" where
  "racing_end = \<lparr>m_Workers = [Executing (Task 0 (Returns 10)), Executing (Task 1 (Throws ''boom''))],
      m_Tasks = [Task 2 (Returns 30)], m_Stop = False,
      shared = [None, None, None], accepted = [0, 1, 2], dequeued = [0, 1],
      begun = [1, 0], finished = [], phase = Alive\<rparr>"


definition demo3_tail :: "nat action list" where
  "demo3_tail = [Step_Worker 0, Step_Worker 1, Step_Worker 0, Step_Worker 2,
                 Step_Worker 1, Step_Worker 0, Step_Destructor,
                 Step_Worker 2, Step_Destructor, Step_Destructor, Step_Destructor]"

definition three_busy :: "nat pool" where
  "three_busy = \<lparr>m_Workers = [Holding (Task 1 (Throws ''boom'')), Executing (Task 2 (Returns 30)),
                                 Executing (Task 0 (Returns 10))],
      m_Tasks = [], m_Stop = True, shared = [None, None, None],
      accepted = [0, 1, 2], dequeued = [0, 1, 2], begun = [2, 0], finished = [],
      phase = Joining 0\<rparr>"

definition demo3_end :: "nat pool" where
  "demo3_end = \<lparr>m_Workers = [Exited, Exited, Exited], m_Tasks = [], m_Stop = True,
      shared = [Some (Value 10), Some (Failure ''boom''), Some (Value 30)],
      accepted = [0, 1, 2], dequeued = [0, 1, 2], begun = [2, 0, 1], finished = [2, 1, 0],
      phase = Destroyed\<rparr>"

text \<open>A pool with two workers and one queued task whose destructor has set the stop flag.\<close>

definition stopping :: "nat pool" where
  "stopping = \<lparr>m_Workers = [Waiting, Waiting], m_Tasks = [Task 0 (Returns 10)],
      m_Stop = True, shared = [None], accepted = [0], dequeued = [],
      begun = [], finished = [], phase = Joining 0\<rparr>"


section \<open>Lemmas\<close>

subsection \<open>The steps, case by case\<close>

text \<open>Replacing one worker changes a sum over the workers by that worker's share.\<close>

lemma sum_list_map_update:
  fixes f :: "'b \<Rightarrow> 'c :: comm_monoid_add"
  shows "w < length ws \<Longrightarrow> sum_list (map f (ws[w := x])) + f (ws ! w) = sum_list (map f ws) + f x"
proof (induction ws arbitrary: w)
  case Nil
  then show ?case by simp
next
  case (Cons a ws)
  show ?case
  proof (cases w)
    case 0
    then show ?thesis by (simp add: ac_simps)
  next
    case (Suc k)
    with Cons.prems have "k < length ws" by simp
    from Cons.IH [OF this] Suc show ?thesis by (simp add: add.assoc)
  qed
qed

text \<open>
  The five ways a step of a worker can go, the three of the destructor and the two of
  \<^verbatim>\<open>Submit\<close>, each with the state it leads to.
\<close>

lemma WorkerThread_cases [consumes 1, case_names leave take start finish crash]:
  assumes "WorkerThread w s = Some s'"
  obtains
    "w < length (m_Workers s)" "m_Workers s ! w = Waiting" "m_Stop s" "m_Tasks s = []"
      "s' = s\<lparr>m_Workers := (m_Workers s)[w := Exited]\<rparr>"
  | t rest where "w < length (m_Workers s)" "m_Workers s ! w = Waiting" "m_Tasks s = t # rest"
      "s' = s\<lparr>m_Workers := (m_Workers s)[w := Holding t], m_Tasks := rest,
              dequeued := dequeued s @ [slot t]\<rparr>"
  | t where "w < length (m_Workers s)" "m_Workers s ! w = Holding t"
      "s' = s\<lparr>m_Workers := (m_Workers s)[w := Executing t], begun := begun s @ [slot t]\<rparr>"
  | t where "w < length (m_Workers s)" "m_Workers s ! w = Executing t"
      "slot t < length (shared s)" "shared s ! slot t = None"
      "s' = s\<lparr>m_Workers := (m_Workers s)[w := Waiting],
              shared := (shared s)[slot t := Some (outcome_of (body t))],
              finished := finished s @ [slot t]\<rparr>"
  | t e where "w < length (m_Workers s)" "m_Workers s ! w = Executing t"
      "length (shared s) \<le> slot t \<or> shared s ! slot t \<noteq> None"
      "s' = s\<lparr>m_Workers := (m_Workers s)[w := Crashed e]\<rparr>"
proof -
  from assms have len: "w < length (m_Workers s)"
    by (simp add: WorkerThread_def split: if_splits)
  show ?thesis
  proof (cases "m_Workers s ! w")
    case Waiting
    show ?thesis
    proof (cases "m_Tasks s")
      case Nil
      with assms len Waiting that(1) show ?thesis
        by (simp add: WorkerThread_def split: if_splits)
    next
      case (Cons t rest)
      with assms len Waiting that(2) show ?thesis
        by (simp add: WorkerThread_def)
    qed
  next
    case (Holding t)
    with assms len that(3) show ?thesis
      by (simp add: WorkerThread_def)
  next
    case (Executing t)
    show ?thesis
    proof (cases "packaged_task_call t (shared s)")
      case (Inl e)
      with assms len Executing that(5) [of t e] show ?thesis
        by (auto simp add: WorkerThread_def packaged_task_call_def split: if_splits)
    next
      case (Inr sh)
      with assms len Executing that(4) [of t] show ?thesis
        by (auto simp add: WorkerThread_def packaged_task_call_def split: if_splits)
    qed
  next
    case Exited
    with assms len show ?thesis by (simp add: WorkerThread_def)
  next
    case (Crashed e)
    with assms len show ?thesis by (simp add: WorkerThread_def)
  qed
qed

lemma ThreadPool_dtor_cases [consumes 1, case_names stop join return]:
  assumes "ThreadPool_dtor s = Some s'"
  obtains
    "phase s = Alive" "s' = s\<lparr>m_Stop := True, phase := Joining 0\<rparr>"
  | i where "phase s = Joining i" "i < length (m_Workers s)" "m_Workers s ! i = Exited"
      "s' = s\<lparr>phase := Joining (Suc i)\<rparr>"
  | i where "phase s = Joining i" "length (m_Workers s) \<le> i" "s' = s\<lparr>phase := Destroyed\<rparr>"
  using assms by (cases "phase s") (auto simp: ThreadPool_dtor_def split: if_splits)

lemma Submit_cases [case_names reject accept]:
  obtains
    "m_Stop s" "Submit func s = (Inl (runtime_error ''Cannot submit task to stopped ThreadPool''), s)"
  | "\<not> m_Stop s"
    "Submit func s = (Inr (Future (Some (length (shared s)))),
        s\<lparr>m_Tasks := m_Tasks s @ [Task (length (shared s)) func],
          shared := shared s @ [None],
          accepted := accepted s @ [length (shared s)]\<rparr>)"
  by (cases "m_Stop s") (simp_all add: Submit_def)

subsection \<open>Every step keeps the invariants\<close>

lemma inv_queue_fire:
  assumes "inv_queue s" "fire a s = Some s'"
  shows "inv_queue s'"
proof (cases a)
  case (Call_Submit func)
  with assms show ?thesis
    by (cases rule: Submit_cases [of s func]) (auto simp: inv_queue_def)
next
  case (Step_Worker w)
  with assms(2) have "WorkerThread w s = Some s'" by simp
  then show ?thesis using assms(1)
    by (cases rule: WorkerThread_cases) (auto simp: inv_queue_def)
next
  case Step_Destructor
  with assms(2) have "ThreadPool_dtor s = Some s'" by simp
  then show ?thesis using assms(1)
    by (cases rule: ThreadPool_dtor_cases) (auto simp: inv_queue_def)
qed

lemma nth_le_sum_list:
  fixes f :: "'b \<Rightarrow> nat multiset"
  shows "w < length ws \<Longrightarrow> f (ws ! w) \<subseteq># sum_list (map f ws)"
proof (induction ws arbitrary: w)
  case Nil
  then show ?case by simp
next
  case (Cons a ws)
  show ?case
  proof (cases w)
    case 0
    then show ?thesis by simp
  next
    case (Suc k)
    with Cons.prems have "k < length ws" by simp
    from Cons.IH [OF this] Suc show ?thesis
      by (simp add: subset_mset.add_increasing)
  qed
qed

text \<open>
  The task a worker is running is an accepted task that has not finished: its shared state
  exists and is not ready, so the call of its packaged task cannot throw.
\<close>

lemma executing_pending:
  assumes q: "inv_queue s" and f: "inv_flow s" and r: "inv_ready s"
    and w: "w < length (m_Workers s)" and e: "m_Workers s ! w = Executing t"
  shows "slot t < length (shared s) \<and> shared s ! slot t = None"
proof -
  let ?E = "sum_list (map executing (m_Workers s))"
  from nth_le_sum_list [OF w, of executing] e have "{#slot t#} \<subseteq># ?E" by simp
  then have inE: "1 \<le> count ?E (slot t)"
    by (metis count_single mset_subset_eq_count)
  from f have b: "count (mset (begun s)) (slot t) = count (mset (finished s)) (slot t) + count ?E (slot t)"
    by (simp add: inv_flow_def)
  from f have "count (mset (begun s)) (slot t) \<le> count (mset (dequeued s)) (slot t)"
    by (simp add: inv_flow_def)
  moreover from q have "count (mset (dequeued s)) (slot t) \<le> count (mset [0..<length (shared s)]) (slot t)"
    by (metis inv_queue_def mset_append count_union le_add1)
  moreover have d: "count (mset [0..<length (shared s)]) (slot t) = (if slot t < length (shared s) then 1 else 0)"
    using distinct_count_atmost_1 [of "[0..<length (shared s)]"] by simp
  ultimately have le: "count (mset (begun s)) (slot t) \<le> (if slot t < length (shared s) then 1 else 0)"
    by linarith
  from b inE have "1 \<le> count (mset (begun s)) (slot t)" by linarith
  with le have lt: "slot t < length (shared s)"
    by (simp split: if_splits)
  from le lt have "count (mset (begun s)) (slot t) \<le> 1" by simp
  with b inE have "count (mset (finished s)) (slot t) = 0" by linarith
  then have "slot t \<notin> set (finished s)" by (simp add: count_eq_zero_iff)
  with r lt show ?thesis by (simp add: inv_ready_def)
qed

lemma inv_flow_fire:
  assumes "inv_core s" "fire a s = Some s'"
  shows "inv_flow s'"
proof (cases a)
  case (Call_Submit func)
  with assms show ?thesis
    by (cases rule: Submit_cases [of s func]) (auto simp: inv_flow_def inv_core_def)
next
  case (Step_Worker w)
  from assms(1) have fl: "inv_flow s" by (simp add: inv_core_def)
  from Step_Worker assms(2) have "WorkerThread w s = Some s'" by simp
  then show ?thesis
  proof (cases rule: WorkerThread_cases)
    case leave
    with sum_list_map_update [of w "m_Workers s" holding Exited]
      sum_list_map_update [of w "m_Workers s" executing Exited] fl
    show ?thesis by (simp add: inv_flow_def)
  next
    case (take t rest)
    with sum_list_map_update [of w "m_Workers s" holding "Holding t"]
      sum_list_map_update [of w "m_Workers s" executing "Holding t"] fl
    show ?thesis by (simp add: inv_flow_def)
  next
    case (start t)
    with sum_list_map_update [of w "m_Workers s" holding "Executing t"]
      sum_list_map_update [of w "m_Workers s" executing "Executing t"] fl
    show ?thesis by (simp add: inv_flow_def)
  next
    case (finish t)
    with sum_list_map_update [of w "m_Workers s" holding "Waiting"]
      sum_list_map_update [of w "m_Workers s" executing "Waiting"] fl
    show ?thesis by (simp add: inv_flow_def)
  next
    case (crash t e)
    with executing_pending [of s w t] assms(1) show ?thesis
      by (simp add: inv_core_def)
  qed
next
  case Step_Destructor
  with assms(2) have "ThreadPool_dtor s = Some s'" by simp
  then show ?thesis using assms(1)
    by (cases rule: ThreadPool_dtor_cases) (auto simp: inv_flow_def inv_core_def)
qed

lemma inv_ready_Submit:
  assumes "inv_ready s"
  shows "inv_ready (s\<lparr>m_Tasks := q, shared := shared s @ [None], accepted := a\<rparr>)"
  unfolding inv_ready_def
proof (intro allI)
  fix h
  from assms have r: "h \<in> set (finished s) \<longleftrightarrow> h < length (shared s) \<and> shared s ! h \<noteq> None"
    by (simp add: inv_ready_def)
  consider "h < length (shared s)" | "h = length (shared s)" | "length (shared s) < h"
    by linarith
  then show "h \<in> set (finished (s\<lparr>m_Tasks := q, shared := shared s @ [None], accepted := a\<rparr>)) \<longleftrightarrow>
      h < length (shared (s\<lparr>m_Tasks := q, shared := shared s @ [None], accepted := a\<rparr>)) \<and>
      shared (s\<lparr>m_Tasks := q, shared := shared s @ [None], accepted := a\<rparr>) ! h \<noteq> None"
  proof cases
    case 1
    with r show ?thesis by (simp add: nth_append)
  next
    case 2
    with r show ?thesis by simp
  next
    case 3
    with r show ?thesis by simp
  qed
qed

lemma inv_ready_finish:
  assumes "inv_ready s" "k < length (shared s)"
  shows "inv_ready (s\<lparr>m_Workers := ws, shared := (shared s)[k := Some v], finished := finished s @ [k]\<rparr>)"
  unfolding inv_ready_def
proof (intro allI)
  fix h
  from assms have r: "h \<in> set (finished s) \<longleftrightarrow> h < length (shared s) \<and> shared s ! h \<noteq> None"
    by (simp add: inv_ready_def)
  show "h \<in> set (finished (s\<lparr>m_Workers := ws, shared := (shared s)[k := Some v], finished := finished s @ [k]\<rparr>)) \<longleftrightarrow>
      h < length (shared (s\<lparr>m_Workers := ws, shared := (shared s)[k := Some v], finished := finished s @ [k]\<rparr>)) \<and>
      shared (s\<lparr>m_Workers := ws, shared := (shared s)[k := Some v], finished := finished s @ [k]\<rparr>) ! h \<noteq> None"
  proof (cases "h = k")
    case True
    with assms(2) show ?thesis by simp
  next
    case False
    with r show ?thesis by simp
  qed
qed

lemma inv_ready_fire:
  assumes "inv_core s" "fire a s = Some s'"
  shows "inv_ready s'"
proof -
  from assms(1) have r: "inv_ready s" by (simp add: inv_core_def)
  show ?thesis
  proof (cases a)
    case (Call_Submit func)
    show ?thesis
    proof (cases rule: Submit_cases [of s func])
      case reject
      with Call_Submit assms(2) r show ?thesis by simp
    next
      case accept
      with Call_Submit assms(2) have "s' = s\<lparr>m_Tasks := m_Tasks s @ [Task (length (shared s)) func],
          shared := shared s @ [None], accepted := accepted s @ [length (shared s)]\<rparr>"
        by simp
      with inv_ready_Submit [OF r] show ?thesis by simp
    qed
  next
    case (Step_Worker w)
    with assms(2) have "WorkerThread w s = Some s'" by simp
    then show ?thesis
    proof (cases rule: WorkerThread_cases)
      case leave
      with r show ?thesis by (simp add: inv_ready_def)
    next
      case (take t rest)
      with r show ?thesis by (simp add: inv_ready_def)
    next
      case (start t)
      with r show ?thesis by (simp add: inv_ready_def)
    next
      case (finish t)
      with inv_ready_finish [OF r] show ?thesis by simp
    next
      case (crash t e)
      with r show ?thesis by (simp add: inv_ready_def)
    qed
  next
    case Step_Destructor
    with assms(2) have "ThreadPool_dtor s = Some s'" by simp
    then show ?thesis using r
      by (cases rule: ThreadPool_dtor_cases) (simp_all add: inv_ready_def)
  qed
qed

lemma inv_core_fire:
  assumes "inv_core s" "fire a s = Some s'"
  shows "inv_core s'"
  using assms inv_queue_fire [of s a s'] inv_flow_fire [of s a s'] inv_ready_fire [of s a s']
  by (simp add: inv_core_def)

lemma inv_life_fire:
  assumes c: "inv_core s" and l: "inv_life s" and f: "fire a s = Some s'"
  shows "inv_life s'"
proof (cases a)
  case (Call_Submit func)
  with l f show ?thesis
    by (cases rule: Submit_cases [of s func]) (auto simp: inv_life_def)
next
  case (Step_Worker w)
  with f have "WorkerThread w s = Some s'" by simp
  then show ?thesis
  proof (cases rule: WorkerThread_cases)
    case leave
    with l show ?thesis
      unfolding inv_life_def by (simp add: nth_list_update)
  next
    case (take t rest)
    with l show ?thesis
      unfolding inv_life_def by (auto simp: nth_list_update)
  next
    case (start t)
    with l show ?thesis
      unfolding inv_life_def by (auto simp: nth_list_update)
  next
    case (finish t)
    with l show ?thesis
      unfolding inv_life_def by (auto simp: nth_list_update)
  next
    case (crash t e)
    with executing_pending [of s w t] c show ?thesis
      by (simp add: inv_core_def)
  qed
next
  case Step_Destructor
  with f have "ThreadPool_dtor s = Some s'" by simp
  then show ?thesis
  proof (cases rule: ThreadPool_dtor_cases)
    case stop
    with l show ?thesis
      unfolding inv_life_def by simp
  next
    case (join i)
    with l show ?thesis
      unfolding inv_life_def by (auto simp: less_Suc_eq)
  next
    case (return i)
    with l show ?thesis
      unfolding inv_life_def by simp
  qed
qed

subsection \<open>What the constructor returns\<close>

declare ctor_loop.simps [simp del]

lemma ctor_loop_eq:
  "ctor_loop limit n i ws =
     (if n - i \<le> limit - length ws
      then (ws @ replicate (n - i) Waiting, None)
      else (ws @ replicate (limit - length ws) Waiting, Some system_error))"
proof (induction limit n i ws rule: ctor_loop.induct)
  case (1 limit threadCount i ws)
  show ?case
  proof (cases "i < threadCount \<and> length ws < limit")
    case True
    then have a: "threadCount - i = Suc (threadCount - Suc i)"
      and b: "limit - length ws = Suc (limit - Suc (length ws))"
      by auto
    from True have "ctor_loop limit threadCount i ws
        = ctor_loop limit threadCount (Suc i) (ws @ [Waiting])"
      by (subst ctor_loop.simps) simp
    also from True "1.IH" have "\<dots> =
      (if threadCount - Suc i \<le> limit - Suc (length ws)
       then ((ws @ [Waiting]) @ replicate (threadCount - Suc i) Waiting, None)
       else ((ws @ [Waiting]) @ replicate (limit - Suc (length ws)) Waiting, Some system_error))"
      by simp
    finally show ?thesis
      by (simp add: a b)
  next
    case False
    then show ?thesis
      by (subst ctor_loop.simps) auto
  qed
qed

lemma ThreadPool_Constructed_iff:
  "ThreadPool env t = Constructed p \<longleftrightarrow>
     max t 1 \<le> vector_max_size env \<and> max t 1 \<le> vector_memory env \<and>
     max t 1 \<le> thread_limit env \<and> p = fresh (max t 1)"
  by (auto simp: ThreadPool_def reserve_def ctor_loop_eq fresh_def Let_def)

lemma ThreadPool_failure:
  "ThreadPool env t =
     (if vector_max_size env < max t 1 then Propagated length_error
      else if vector_memory env < max t 1 then Propagated bad_alloc
      else if max t 1 \<le> thread_limit env then Constructed (fresh (max t 1))
      else if thread_limit env = 0 then Propagated system_error
      else Abandoned (replicate (thread_limit env) Waiting) system_error)"
  by (auto simp: ThreadPool_def reserve_def ctor_loop_eq fresh_def Let_def)

lemma sum_list_replicate_empty: "sum_list (replicate k ({#} :: nat multiset)) = {#}"
  by (induction k) simp_all

lemma sum_list_replicate_Waiting:
  "sum_list (map holding (replicate k Waiting)) = {#}"
  "sum_list (map executing (replicate k Waiting)) = {#}"
  by (simp_all add: sum_list_replicate_empty)

lemma inv_fresh: "inv_core (fresh k)" "inv_life (fresh k)"
  by (simp_all add: inv_core_def inv_queue_def inv_flow_def inv_ready_def inv_life_def fresh_def
      sum_list_replicate_empty)

subsection \<open>The states a pool reaches\<close>

lemma fire_length:
  assumes "fire a s = Some s'"
  shows "length (m_Workers s') = length (m_Workers s)"
proof (cases a)
  case (Call_Submit func)
  with assms show ?thesis
    by (cases rule: Submit_cases [of s func]) auto
next
  case (Step_Worker w)
  with assms have "WorkerThread w s = Some s'" by simp
  then show ?thesis
    by (cases rule: WorkerThread_cases) simp_all
next
  case Step_Destructor
  with assms have "ThreadPool_dtor s = Some s'" by simp
  then show ?thesis
    by (cases rule: ThreadPool_dtor_cases) simp_all
qed

lemma run_invariant:
  assumes "inv_core s" "inv_life s" "run acts s = Some s'"
  shows "inv_core s' \<and> inv_life s' \<and> length (m_Workers s') = length (m_Workers s)"
  using assms
proof (induction acts arbitrary: s)
  case Nil
  then show ?case by simp
next
  case (Cons a acts)
  from Cons.prems(3) obtain s1 where f: "fire a s = Some s1" and r: "run acts s1 = Some s'"
    by (auto split: option.splits)
  from inv_core_fire [OF Cons.prems(1) f] inv_life_fire [OF Cons.prems(1,2) f]
    Cons.IH [OF _ _ r] fire_length [OF f]
  show ?case by simp
qed

lemma reachable_invariant:
  assumes "ThreadPool env t = Constructed p" "run acts p = Some s"
  shows "inv_core s" "inv_life s" "length (m_Workers s) = max t 1"
proof -
  from assms(1) have p: "p = fresh (max t 1)"
    by (simp add: ThreadPool_Constructed_iff)
  from assms(2) p have "run acts (fresh (max t 1)) = Some s" by simp
  from run_invariant [OF inv_fresh(1) inv_fresh(2) this]
  show "inv_core s" "inv_life s" "length (m_Workers s) = max t 1"
    by (simp_all add: fresh_def)
qed

lemma size_executing: "size (sum_list (map executing ws)) = length (filter is_executing ws)"
proof (induction ws)
  case Nil
  then show ?case by simp
next
  case (Cons x ws)
  then show ?case by (cases x) simp_all
qed

lemma stopped_after_destructor:
  assumes "ThreadPool env t = Constructed p" and "run acts p = Some s" and "phase s \<noteq> Alive"
  shows "m_Stop s"
  using reachable_invariant(2) [OF assms(1,2)] assms(3) by (simp add: inv_life_def)


subsection \<open>Consequences of the invariants\<close>

lemma all_exited_sums:
  assumes "\<forall>j. j < length ws \<longrightarrow> ws ! j = Exited"
  shows "sum_list (map holding ws) = {#}" "sum_list (map executing ws) = {#}"
proof -
  from assms have "\<forall>x \<in> set ws. x = Exited"
    by (simp add: all_set_conv_all_nth)
  then show "sum_list (map holding ws) = {#}" "sum_list (map executing ws) = {#}"
    by (induction ws) simp_all
qed

lemma count_le_one:
  assumes "inv_core s"
  shows "count_list (dequeued s) h \<le> 1" "count_list (begun s) h \<le> 1" "count_list (finished s) h \<le> 1"
proof -
  from assms have q: "dequeued s @ map slot (m_Tasks s) = [0..<length (shared s)]"
    by (simp add: inv_core_def inv_queue_def)
  have "distinct (dequeued s @ map slot (m_Tasks s))"
    unfolding q by simp
  then have "distinct (dequeued s)" by simp
  then have d: "count (mset (dequeued s)) h \<le> 1"
    by (simp add: distinct_count_atmost_1)
  from assms have "count (mset (begun s)) h \<le> count (mset (dequeued s)) h"
    and "count (mset (finished s)) h \<le> count (mset (begun s)) h"
    by (simp_all add: inv_core_def inv_flow_def)
  with d show "count_list (dequeued s) h \<le> 1" "count_list (begun s) h \<le> 1"
    "count_list (finished s) h \<le> 1"
    by (simp_all add: count_mset)
qed


lemma drained:
  assumes c: "inv_core s" and l: "inv_life s" and n: "m_Workers s \<noteq> []" and d: "phase s = Destroyed"
  shows "m_Tasks s = []" "mset (finished s) = mset (accepted s)" "mset (begun s) = mset (accepted s)"
    "dequeued s = accepted s"
proof -
  from l d have e: "\<forall>j. j < length (m_Workers s) \<longrightarrow> m_Workers s ! j = Exited"
    by (simp add: inv_life_def)
  from n have "0 < length (m_Workers s)" by simp
  with e have "m_Workers s ! 0 = Exited" by blast
  with l \<open>0 < length (m_Workers s)\<close> show q: "m_Tasks s = []"
    unfolding inv_life_def by blast
  with c show dq: "dequeued s = accepted s"
    by (simp add: inv_core_def inv_queue_def)
  from c all_exited_sums [OF e] have "mset (dequeued s) = mset (begun s)" "mset (begun s) = mset (finished s)"
    by (simp_all add: inv_core_def inv_flow_def)
  with dq show "mset (finished s) = mset (accepted s)" "mset (begun s) = mset (accepted s)"
    by simp_all
qed

subsection \<open>A single worker\<close>

lemma inv_single_fire:
  assumes "inv_single s" "fire a s = Some s'"
  shows "inv_single s'"
proof (cases a)
  case (Call_Submit func)
  with assms show ?thesis
    by (cases rule: Submit_cases [of s func]) (auto simp: inv_single_def)
next
  case (Step_Worker w)
  with assms(2) have "WorkerThread w s = Some s'" by simp
  then show ?thesis using assms(1)
    by (cases rule: WorkerThread_cases) (auto simp: inv_single_def)
next
  case Step_Destructor
  with assms(2) have "ThreadPool_dtor s = Some s'" by simp
  then show ?thesis using assms(1)
    by (cases rule: ThreadPool_dtor_cases) (auto simp: inv_single_def)
qed

lemma inv_single_run:
  assumes "inv_single s" "run acts s = Some s'"
  shows "inv_single s'"
  using assms
proof (induction acts arbitrary: s)
  case Nil
  then show ?case by simp
next
  case (Cons a acts)
  from Cons.prems(2) obtain s1 where f: "fire a s = Some s1" and r: "run acts s1 = Some s'"
    by (auto split: option.splits)
  from Cons.IH [OF inv_single_fire [OF Cons.prems(1) f] r] show ?case .
qed

lemma inv_single_fresh: "inv_single (fresh k)"
  by (cases k) (simp_all add: inv_single_def fresh_def)

subsection \<open>A task and the callable it wraps\<close>

lemma in_hand_slot:
  "t \<in> set (in_hand x) \<Longrightarrow> slot t \<in># holding x + executing x"
  by (cases x) simp_all

lemma pending_slot_bound:
  assumes c: "inv_core s" and t: "t \<in> set (pending_tasks s)"
  shows "slot t < length (shared s)"
proof -
  from c have q: "dequeued s @ map slot (m_Tasks s) = [0..<length (shared s)]"
    by (simp add: inv_core_def inv_queue_def)
  from t have "t \<in> set (m_Tasks s) \<or> (\<exists>x \<in> set (m_Workers s). t \<in> set (in_hand x))"
    by (auto simp: pending_tasks_def)
  then consider "t \<in> set (m_Tasks s)" | j where "j < length (m_Workers s)" "t \<in> set (in_hand (m_Workers s ! j))"
    by (metis in_set_conv_nth)
  then have "slot t \<in> set (dequeued s @ map slot (m_Tasks s))"
  proof cases
    case 1
    then show ?thesis by simp
  next
    case (2 j)
    from in_hand_slot [OF 2(2)] nth_le_sum_list [OF 2(1), of holding] nth_le_sum_list [OF 2(1), of executing]
    have "slot t \<in># sum_list (map holding (m_Workers s)) + sum_list (map executing (m_Workers s))"
      by (auto dest: mset_subset_eqD)
    with c have "slot t \<in># mset (dequeued s)"
      by (auto simp: inv_core_def inv_flow_def)
    then show ?thesis by simp
  qed
  then show ?thesis unfolding q by simp
qed

lemma in_set_updateD: "y \<in> set (xs[i := x]) \<Longrightarrow> y = x \<or> y \<in> set xs"
  using set_update_subset_insert [of xs i x] by auto

lemma pending_update_subset:
  "set (concat (map in_hand (ws[w := x]))) \<subseteq> set (in_hand x) \<union> set (concat (map in_hand ws))"
  by (auto dest!: in_set_updateD)

lemma pending_nth:
  "w < length ws \<Longrightarrow> set (in_hand (ws ! w)) \<subseteq> set (concat (map in_hand ws))"
  by (auto intro: nth_mem)

lemma pending_WorkerThread:
  assumes "WorkerThread w s = Some s'"
  shows "set (pending_tasks s') \<subseteq> set (pending_tasks s)"
  using assms
proof (cases rule: WorkerThread_cases)
  case leave
  with pending_update_subset [of "m_Workers s" w Exited] show ?thesis
    by (auto simp: pending_tasks_def)
next
  case (take t rest)
  with pending_update_subset [of "m_Workers s" w "Holding t"] show ?thesis
    by (auto simp: pending_tasks_def)
next
  case (start t)
  with pending_update_subset [of "m_Workers s" w "Executing t"] pending_nth [of w "m_Workers s"]
  show ?thesis
    by (auto simp: pending_tasks_def)
next
  case (finish t)
  with pending_update_subset [of "m_Workers s" w Waiting] show ?thesis
    by (auto simp: pending_tasks_def)
next
  case (crash t e)
  with pending_update_subset [of "m_Workers s" w "Crashed e"] show ?thesis
    by (auto simp: pending_tasks_def)
qed

lemma inv_body_fire:
  assumes c: "inv_core s" and b: "inv_body h func s" and f: "fire a s = Some s'"
  shows "inv_body h func s'"
proof (cases a)
  case (Call_Submit g)
  show ?thesis
  proof (cases rule: Submit_cases [of s g])
    case reject
    with Call_Submit f b show ?thesis by simp
  next
    case accept
    with Call_Submit f have s': "s' = s\<lparr>m_Tasks := m_Tasks s @ [Task (length (shared s)) g],
          shared := shared s @ [None], accepted := accepted s @ [length (shared s)]\<rparr>"
      by simp
    from b have "h < length (shared s)" by (simp add: inv_body_def)
    with b show ?thesis
      unfolding s' inv_body_def by (auto simp: pending_tasks_def nth_append)
  qed
next
  case (Step_Worker w)
  with f have wt: "WorkerThread w s = Some s'" by simp
  note sub = pending_WorkerThread [OF wt]
  from wt show ?thesis
  proof (cases rule: WorkerThread_cases)
    case leave
    with b sub show ?thesis unfolding inv_body_def by auto
  next
    case (take t rest)
    with b sub show ?thesis unfolding inv_body_def by auto
  next
    case (start t)
    with b sub show ?thesis unfolding inv_body_def by auto
  next
    case (finish t)
    from finish(1,2) pending_nth [of w "m_Workers s"] have "t \<in> set (pending_tasks s)"
      by (auto simp: pending_tasks_def)
    with b have "slot t = h \<longrightarrow> body t = func" by (simp add: inv_body_def)
    with b sub finish show ?thesis
      unfolding inv_body_def by (auto simp: nth_list_update)
  next
    case (crash t e)
    with b sub show ?thesis unfolding inv_body_def by auto
  qed
next
  case Step_Destructor
  with f have "ThreadPool_dtor s = Some s'" by simp
  then show ?thesis using b
    by (cases rule: ThreadPool_dtor_cases) (auto simp: inv_body_def pending_tasks_def)
qed

lemma inv_body_run:
  assumes "inv_core s" "inv_life s" "inv_body h func s" "run acts s = Some s'"
  shows "inv_body h func s'"
  using assms
proof (induction acts arbitrary: s)
  case Nil
  then show ?case by simp
next
  case (Cons a acts)
  from Cons.prems(4) obtain s1 where f: "fire a s = Some s1" and r: "run acts s1 = Some s'"
    by (auto split: option.splits)
  from Cons.IH [OF inv_core_fire [OF Cons.prems(1) f] inv_life_fire [OF Cons.prems(1,2) f]
      inv_body_fire [OF Cons.prems(1,3) f] r]
  show ?case .
qed

lemma inv_body_Submit:
  assumes c: "inv_core s" and n: "\<not> m_Stop s"
  shows "inv_body (length (shared s)) func (snd (Submit func s))"
proof -
  have "\<forall>t \<in> set (pending_tasks s). slot t \<noteq> length (shared s)"
    using pending_slot_bound [OF c] by fastforce
  with n show ?thesis
    by (auto simp: Submit_def inv_body_def pending_tasks_def)
qed

subsection \<open>A ready shared state stays as it is\<close>

lemma run_append:
  "run (xs @ ys) s = (case run xs s of None \<Rightarrow> None | Some s' \<Rightarrow> run ys s')"
  by (induction xs arbitrary: s) (simp_all split: option.splits)

lemma shared_stable_fire:
  assumes "fire a s = Some s'" and "h < length (shared s)" and "shared s ! h = Some oc"
  shows "h < length (shared s') \<and> shared s' ! h = Some oc"
proof (cases a)
  case (Call_Submit g)
  with assms show ?thesis
    by (cases rule: Submit_cases [of s g]) (auto simp: nth_append)
next
  case (Step_Worker w)
  with assms(1) have "WorkerThread w s = Some s'" by simp
  then show ?thesis using assms(2,3)
    by (cases rule: WorkerThread_cases) (auto simp: nth_list_update)
next
  case Step_Destructor
  with assms(1) have "ThreadPool_dtor s = Some s'" by simp
  then show ?thesis using assms(2,3)
    by (cases rule: ThreadPool_dtor_cases) auto
qed

lemma shared_stable_run:
  assumes "run acts s = Some s'" and "h < length (shared s)" and "shared s ! h = Some oc"
  shows "h < length (shared s') \<and> shared s' ! h = Some oc"
  using assms
proof (induction acts arbitrary: s)
  case Nil
  then show ?case by simp
next
  case (Cons a acts)
  from Cons.prems(1) obtain s1 where f: "fire a s = Some s1" and r: "run acts s1 = Some s'"
    by (auto split: option.splits)
  from shared_stable_fire [OF f Cons.prems(2,3)] Cons.IH [OF r] show ?case by blast
qed

subsection \<open>Progress\<close>

text \<open>
  Every step of a worker takes one step off the work that remains or is the return of
  that worker; every step of the destructor takes one off what is left until it has
  returned; and while work remains, or the destructor is joining, some thread can step.
\<close>

lemma WorkerThread_progress:
  assumes c: "inv_core s" and w: "WorkerThread w s = Some s'"
  shows "phase s' = phase s \<and> accepted s' = accepted s \<and> m_Stop s' = m_Stop s \<and>
     length (m_Workers s') = length (m_Workers s) \<and>
     (remaining s' + 1 = remaining s \<and>
        sum_list (map unreturned (m_Workers s')) = sum_list (map unreturned (m_Workers s)) \<or>
      m_Workers s ! w = Waiting \<and> m_Stop s \<and> m_Tasks s = [] \<and> remaining s' = remaining s \<and>
        sum_list (map unreturned (m_Workers s')) + 1 = sum_list (map unreturned (m_Workers s)))"
  using w
proof (cases rule: WorkerThread_cases)
  case leave
  with sum_list_map_update [of w "m_Workers s" work Exited]
    sum_list_map_update [of w "m_Workers s" unreturned Exited]
  show ?thesis by (simp add: remaining_def)
next
  case (take t rest)
  with sum_list_map_update [of w "m_Workers s" work "Holding t"]
    sum_list_map_update [of w "m_Workers s" unreturned "Holding t"]
  show ?thesis by (simp add: remaining_def)
next
  case (start t)
  with sum_list_map_update [of w "m_Workers s" work "Executing t"]
    sum_list_map_update [of w "m_Workers s" unreturned "Executing t"]
  show ?thesis by (simp add: remaining_def)
next
  case (finish t)
  with sum_list_map_update [of w "m_Workers s" work Waiting]
    sum_list_map_update [of w "m_Workers s" unreturned Waiting]
  show ?thesis by (simp add: remaining_def)
next
  case (crash t e)
  with executing_pending [of s w t] c show ?thesis
    by (simp add: inv_core_def)
qed



lemma busy_worker_steps:
  assumes c: "inv_core s" and w: "w < length (m_Workers s)" and b: "0 < work (m_Workers s ! w)"
  shows "\<exists>s'. WorkerThread w s = Some s'"
proof (cases "m_Workers s ! w")
  case (Holding t)
  with w show ?thesis by (simp add: WorkerThread_def)
next
  case (Executing t)
  from c have "inv_queue s" "inv_flow s" "inv_ready s" by (simp_all add: inv_core_def)
  from executing_pending [OF this w Executing] w Executing show ?thesis
    by (simp add: WorkerThread_def packaged_task_call_def)
qed (use b in simp_all)

lemma idle_workers_wait:
  assumes l: "inv_life s" and q: "m_Tasks s \<noteq> []" and w: "w < length (m_Workers s)"
    and b: "work (m_Workers s ! w) = 0"
  shows "m_Workers s ! w = Waiting"
proof (cases "m_Workers s ! w")
  case Exited
  with l w q show ?thesis unfolding inv_life_def by blast
next
  case (Crashed e)
  with l w show ?thesis unfolding inv_life_def by blast
qed (use b in simp_all)

lemma worker_can_work:
  assumes c: "inv_core s" and l: "inv_life s" and n: "m_Workers s \<noteq> []" and r: "0 < remaining s"
  shows "\<exists>w s'. WorkerThread w s = Some s' \<and> remaining s' + 1 = remaining s"
proof -
  have "\<exists>w s'. WorkerThread w s = Some s' \<and> (m_Workers s ! w = Waiting \<longrightarrow> m_Tasks s \<noteq> [])"
  proof (cases "\<exists>w < length (m_Workers s). 0 < work (m_Workers s ! w)")
    case True
    then obtain w where w: "w < length (m_Workers s)" "0 < work (m_Workers s ! w)" by blast
    from busy_worker_steps [OF c w] obtain s' where "WorkerThread w s = Some s'" by blast
    moreover from w(2) have "m_Workers s ! w \<noteq> Waiting" by auto
    ultimately show ?thesis by blast
  next
    case False
    then have z: "\<forall>w < length (m_Workers s). work (m_Workers s ! w) = 0" by simp
    then have "\<forall>x \<in> set (m_Workers s). work x = 0"
      by (simp add: all_set_conv_all_nth)
    then have "sum_list (map work (m_Workers s)) = 0" by simp
    with r have q: "m_Tasks s \<noteq> []" by (auto simp: remaining_def)
    from n have len: "0 < length (m_Workers s)" by simp
    with z have "work (m_Workers s ! 0) = 0" by blast
    from idle_workers_wait [OF l q len this] len q have "WorkerThread 0 s \<noteq> None"
      by (simp add: WorkerThread_def)
    with q show ?thesis by blast
  qed
  then obtain w s' where w: "WorkerThread w s = Some s'"
    and nq: "m_Workers s ! w = Waiting \<longrightarrow> m_Tasks s \<noteq> []" by blast
  from WorkerThread_progress [OF c w] nq have "remaining s' + 1 = remaining s"
    by blast
  with w show ?thesis by blast
qed



lemma workers_can_finish_all:
  assumes "inv_core s" "inv_life s" "m_Workers s \<noteq> []"
  shows "\<exists>acts s'. run acts s = Some s' \<and> list_all is_worker_step acts \<and> length acts = remaining s \<and>
           remaining s' = 0 \<and> phase s' = phase s \<and> accepted s' = accepted s"
  using assms
proof (induction "remaining s" arbitrary: s)
  case 0
  then have "run [] s = Some s \<and> list_all is_worker_step [] \<and> length [] = remaining s \<and>
           remaining s = 0 \<and> phase s = phase s \<and> accepted s = accepted s"
    by simp
  then show ?case by blast
next
  case (Suc k)
  from Suc.hyps(2) have "0 < remaining s" by simp
  from worker_can_work [OF Suc.prems this] obtain w s1
    where w: "WorkerThread w s = Some s1" and r: "remaining s1 + 1 = remaining s" by blast
  then have f: "fire (Step_Worker w) s = Some s1" by simp
  from r Suc.hyps(2) have k: "k = remaining s1" by simp
  note p = WorkerThread_progress [OF Suc.prems(1) w]
  from p Suc.prems(3) have n1: "m_Workers s1 \<noteq> []" by auto
  from Suc.hyps(1) [OF k inv_core_fire [OF Suc.prems(1) f] inv_life_fire [OF Suc.prems(1,2) f] n1]
  obtain acts s' where a: "run acts s1 = Some s'" "list_all is_worker_step acts"
    "length acts = remaining s1"
    "remaining s' = 0" "phase s' = phase s1" "accepted s' = accepted s1"
    by blast
  with f p r have "run (Step_Worker w # acts) s = Some s' \<and> list_all is_worker_step (Step_Worker w # acts) \<and>
      length (Step_Worker w # acts) = remaining s \<and>
      remaining s' = 0 \<and> phase s' = phase s \<and> accepted s' = accepted s"
    by simp
  then show ?case by blast
qed


lemma all_done:
  assumes c: "inv_core s" and r: "remaining s = 0"
  shows "m_Tasks s = []" "mset (finished s) = mset (accepted s)" "dequeued s = accepted s"
    "mset (begun s) = mset (accepted s)"
proof -
  from r show q: "m_Tasks s = []" by (simp add: remaining_def)
  from r have "\<forall>x \<in> set (m_Workers s). work x = 0" by (simp add: remaining_def)
  then have "\<forall>x \<in> set (m_Workers s). holding x = {#} \<and> executing x = {#}"
  proof (intro ballI)
    fix x assume "\<forall>x \<in> set (m_Workers s). work x = 0" "x \<in> set (m_Workers s)"
    then have "work x = 0" by blast
    then show "holding x = {#} \<and> executing x = {#}" by (cases x) simp_all
  qed
  moreover have "(\<forall>x \<in> set ws. holding x = {#} \<and> executing x = {#}) \<Longrightarrow>
      sum_list (map holding ws) = {#} \<and> sum_list (map executing ws) = {#}" for ws :: "'a worker list"
    by (induction ws) simp_all
  ultimately have z: "sum_list (map holding (m_Workers s)) = {#}" "sum_list (map executing (m_Workers s)) = {#}"
    by blast+
  from c q show d: "dequeued s = accepted s" by (simp add: inv_core_def inv_queue_def)
  from c z have "mset (dequeued s) = mset (begun s)" "mset (begun s) = mset (finished s)"
    by (simp_all add: inv_core_def inv_flow_def)
  with d show "mset (finished s) = mset (accepted s)" "mset (begun s) = mset (accepted s)"
    by simp_all
qed

subsection \<open>The example executions, evaluated\<close>

lemma ThreadPool_env0:
  "ThreadPool env0 1 = Constructed (fresh 1 :: nat pool)"
  "ThreadPool env0 2 = Constructed (fresh 2 :: nat pool)"
  by code_simp+

lemma run_one_queued: "run [Call_Submit (Returns 10)] (fresh 1) = Some one_queued"
  by code_simp

lemma Submit_one_queued: "Submit (Throws ''boom'') one_queued = (Inr (Future (Some 1)), two_queued)"
  by code_simp

lemma run_two_queued:
  "run [Call_Submit (Returns 10), Call_Submit (Throws ''boom'')] (fresh 1) = Some two_queued"
  by code_simp

lemma run_demo1_tail: "run demo1_tail two_queued = Some demo1_end"
  by code_simp

lemma run_demo1: "run demo1 (fresh 1) = Some demo1_end"
  by code_simp

lemma run_racing: "run racing (fresh 2) = Some racing_end"
  by code_simp

lemma run_stopping: "run [Call_Submit (Returns 10), Step_Destructor] (fresh 2) = Some stopping"
  by code_simp



lemma run_demo3_tail: "run demo3_tail three_busy = Some demo3_end"
  by code_simp


section \<open>The claims\<close>

text \<open>
  In the statements below a pool is one that the constructor returned
  (\<open>ThreadPool env t = Constructed p\<close>), and a state of it is one that some interleaving of
  calls of \<^verbatim>\<open>Submit\<close>, steps of the workers and steps of the destructor leads to
  (\<open>run acts p = Some s\<close>).
\<close>

subsection \<open>C1: no accepted task is lost or run twice\<close>



subsection \<open>C2: Submit on a pool that is shutting down\<close>

text \<open>
  C2. In every state of a pool in which the destructor has begun (\<open>phase s \<noteq> Alive\<close>) the
  stop flag is set, and a call of \<^verbatim>\<open>Submit\<close> ends with the exception
  \<^verbatim>\<open>std::runtime_error("Cannot submit task to stopped ThreadPool")\<close> thrown to its caller:
  no future is returned, nothing is put in the queue, no task is accepted and no shared
  state is left to carry the error.
\<close>

theorem C2_submit_after_shutdown_raises:
  assumes "ThreadPool env t = Constructed p" and "run acts p = Some s" and "phase s \<noteq> Alive"
  shows "m_Stop s \<and>
         fst (Submit func s) = Inl (runtime_error ''Cannot submit task to stopped ThreadPool'') \<and>
         m_Tasks (snd (Submit func s)) = m_Tasks s \<and>
         accepted (snd (Submit func s)) = accepted s \<and>
         shared (snd (Submit func s)) = shared s"
  using stopped_after_destructor [OF assms] by (simp add: Submit_def)

theorem C2_submit_after_shutdown_raises_witness:
  "ThreadPool env0 2 = Constructed (fresh 2 :: nat pool) \<and>
   run [Call_Submit (Returns 10), Step_Destructor] (fresh 2) = Some stopping \<and>
   phase stopping \<noteq> Alive \<and> m_Stop stopping \<and>
   fst (Submit (Returns 5) stopping) = Inl (runtime_error ''Cannot submit task to stopped ThreadPool'') \<and>
   m_Tasks (snd (Submit (Returns 5) stopping)) = m_Tasks stopping \<and>
   accepted (snd (Submit (Returns 5) stopping)) = accepted stopping \<and>
   shared (snd (Submit (Returns 5) stopping)) = shared stopping"
proof -
  have h: "phase stopping \<noteq> Alive" by (simp add: stopping_def)
  from C2_submit_after_shutdown_raises [OF ThreadPool_env0(2) run_stopping h, of "Returns 5"]
    ThreadPool_env0(2) run_stopping h
  show ?thesis by blast
qed

subsection \<open>C3: the order in which tasks are dequeued\<close>

text \<open>
  C3, as stated, says that tasks submitted before any of them is dequeued begin to run in
  the order of submission. The workers call their tasks after releasing the lock (line 126,
  \<^verbatim>\<open>// Execute task outside lock\<close>), so with two workers the second task can be called
  before the first: in the execution \<open>racing\<close> three tasks are submitted before any is
  dequeued, and the task of slot 1 begins to run before the task of slot 0.
\<close>

theorem C3_counterexample:
  "ThreadPool env0 2 = Constructed (fresh 2 :: nat pool) \<and>
   map_option dequeued
     (run [Call_Submit (Returns 10), Call_Submit (Throws ''boom''), Call_Submit (Returns 30)]
        (fresh 2 :: nat pool)) = Some [] \<and>
   run racing (fresh 2) = Some racing_end \<and>
   accepted racing_end = [0, 1, 2] \<and> begun racing_end = [1, 0]"
proof -
  have "map_option dequeued
     (run [Call_Submit (Returns 10), Call_Submit (Throws ''boom''), Call_Submit (Returns 30)]
        (fresh 2 :: nat pool)) = Some []"
    by code_simp
  moreover have "accepted racing_end = [0, 1, 2]" "begun racing_end = [1, 0]"
    by (simp_all add: racing_end_def)
  ultimately show ?thesis using ThreadPool_env0(2) run_racing by blast
qed

text \<open>
  C3, amended. In every state of a pool the tasks dequeued so far, followed by the tasks
  in the queue, are the accepted tasks in the order of acceptance: \<^verbatim>\<open>Submit\<close> puts a task at
  the back of the queue, a worker takes the task at the front, and so tasks are dequeued in
  the order in which they were submitted. With a single worker they also begin to run in
  that order.
\<close>

theorem C3_dequeue_order:
  assumes "ThreadPool env t = Constructed p" and "run acts p = Some s"
  shows "dequeued s @ map slot (m_Tasks s) = accepted s \<and>
         (\<not> m_Stop s \<longrightarrow> m_Tasks (snd (Submit func s)) = m_Tasks s @ [Task (length (shared s)) func]) \<and>
         (\<forall>w s'. WorkerThread w s = Some s' \<longrightarrow> m_Workers s ! w = Waiting \<longrightarrow> m_Tasks s \<noteq> [] \<longrightarrow>
            m_Workers s' ! w = Holding (hd (m_Tasks s)) \<and> m_Tasks s' = tl (m_Tasks s)) \<and>
         (ThreadCount s = 1 \<longrightarrow> (\<exists>rest. begun s @ rest = accepted s))"
proof -
  from reachable_invariant(1) [OF assms] have q: "dequeued s @ map slot (m_Tasks s) = accepted s"
    by (simp add: inv_core_def inv_queue_def)
  have sub: "\<not> m_Stop s \<longrightarrow> m_Tasks (snd (Submit func s)) = m_Tasks s @ [Task (length (shared s)) func]"
    by (simp add: Submit_def)
  have wk: "\<forall>w s'. WorkerThread w s = Some s' \<longrightarrow> m_Workers s ! w = Waiting \<longrightarrow> m_Tasks s \<noteq> [] \<longrightarrow>
            m_Workers s' ! w = Holding (hd (m_Tasks s)) \<and> m_Tasks s' = tl (m_Tasks s)"
  proof (intro allI impI)
    fix w s' assume "WorkerThread w s = Some s'" "m_Workers s ! w = Waiting" "m_Tasks s \<noteq> []"
    then show "m_Workers s' ! w = Holding (hd (m_Tasks s)) \<and> m_Tasks s' = tl (m_Tasks s)"
      by (cases rule: WorkerThread_cases) simp_all
  qed
  from assms(1) have "p = fresh (max t 1)" by (simp add: ThreadPool_Constructed_iff)
  with inv_single_run [OF inv_single_fresh] assms(2) have "inv_single s" by blast
  then have "ThreadCount s = 1 \<longrightarrow> dequeued s = begun s @ (case m_Workers s ! 0 of Holding t \<Rightarrow> [slot t] | _ \<Rightarrow> [])"
    by (simp add: inv_single_def ThreadCount_def)
  with q have "ThreadCount s = 1 \<longrightarrow> (\<exists>rest. begun s @ rest = accepted s)"
    by (metis append.assoc)
  with q sub wk show ?thesis by blast
qed

theorem C3_dequeue_order_witness:
  "ThreadPool env0 1 = Constructed (fresh 1 :: nat pool) \<and>
   run [Call_Submit (Returns 10), Call_Submit (Throws ''boom'')] (fresh 1) = Some two_queued \<and>
   \<not> m_Stop two_queued \<and> m_Workers two_queued ! 0 = Waiting \<and> m_Tasks two_queued \<noteq> [] \<and>
   ThreadCount two_queued = 1 \<and>
   dequeued two_queued @ map slot (m_Tasks two_queued) = accepted two_queued \<and>
   m_Tasks (snd (Submit (Returns 30) two_queued)) =
     m_Tasks two_queued @ [Task (length (shared two_queued)) (Returns 30)] \<and>
   (\<exists>s'. WorkerThread 0 two_queued = Some s' \<and>
      m_Workers s' ! 0 = Holding (hd (m_Tasks two_queued)) \<and> m_Tasks s' = tl (m_Tasks two_queued)) \<and>
   (\<exists>rest. begun two_queued @ rest = accepted two_queued)"
proof -
  have h: "\<not> m_Stop two_queued" "m_Workers two_queued ! 0 = Waiting" "m_Tasks two_queued \<noteq> []"
    "ThreadCount two_queued = 1"
    by (simp_all add: two_queued_def ThreadCount_def)
  have "WorkerThread 0 two_queued \<noteq> None" by code_simp
  then obtain s' where w: "WorkerThread 0 two_queued = Some s'" by blast
  from C3_dequeue_order [OF ThreadPool_env0(1) run_two_queued, of "Returns 30"] h w
  have "dequeued two_queued @ map slot (m_Tasks two_queued) = accepted two_queued \<and>
     m_Tasks (snd (Submit (Returns 30) two_queued)) =
       m_Tasks two_queued @ [Task (length (shared two_queued)) (Returns 30)] \<and>
     (m_Workers s' ! 0 = Holding (hd (m_Tasks two_queued)) \<and> m_Tasks s' = tl (m_Tasks two_queued)) \<and>
     (\<exists>rest. begun two_queued @ rest = accepted two_queued)"
    by blast
  with h w ThreadPool_env0(1) run_two_queued show ?thesis by blast
qed

subsection \<open>C4: a task that throws\<close>

text \<open>
  C4. In every state of a pool, when the callable of the task that worker \<open>w\<close> is running
  throws \<open>e\<close>, the step of the worker exists and ends with the worker back at the top of its
  loop (\<open>Waiting\<close>, neither returned nor crashed); the shared state of that task, which was
  not ready, now holds \<open>Failure e\<close>; every other shared state, every other worker, the queue
  and the stop flag are as before. No worker of a pool is ever crashed: no exception leaves
  \<^verbatim>\<open>WorkerThread\<close>.
\<close>

theorem C4_task_failure_is_captured:
  assumes "ThreadPool env t = Constructed p" and "run acts p = Some s"
    and "w < length (m_Workers s)" and "m_Workers s ! w = Executing tk" and "body tk = Throws e"
  shows "(\<exists>s'. WorkerThread w s = Some s' \<and>
            slot tk < length (shared s) \<and> shared s ! slot tk = None \<and>
            shared s' = (shared s)[slot tk := Some (Failure e)] \<and>
            m_Workers s' = (m_Workers s)[w := Waiting] \<and>
            m_Tasks s' = m_Tasks s \<and> m_Stop s' = m_Stop s \<and>
            (\<forall>j e'. j < length (m_Workers s') \<longrightarrow> m_Workers s' ! j \<noteq> Crashed e')) \<and>
         (\<forall>j e'. j < length (m_Workers s) \<longrightarrow> m_Workers s ! j \<noteq> Crashed e')"
proof -
  note c = reachable_invariant(1) [OF assms(1,2)] and l = reachable_invariant(2) [OF assms(1,2)]
  from c have "inv_queue s" "inv_flow s" "inv_ready s" by (simp_all add: inv_core_def)
  from executing_pending [OF this assms(3,4)]
  have pend: "slot tk < length (shared s)" "shared s ! slot tk = None" by simp_all
  let ?s' = "s\<lparr>m_Workers := (m_Workers s)[w := Waiting],
      shared := (shared s)[slot tk := Some (outcome_of (body tk))],
      finished := finished s @ [slot tk]\<rparr>"
  from assms(3,4) pend have step: "WorkerThread w s = Some ?s'"
    by (simp add: WorkerThread_def packaged_task_call_def)
  then have "fire (Step_Worker w) s = Some ?s'" by simp
  from inv_life_fire [OF c l this]
  have nc': "\<forall>j e'. j < length (m_Workers ?s') \<longrightarrow> m_Workers ?s' ! j \<noteq> Crashed e'"
    unfolding inv_life_def by blast
  from l have nc: "\<forall>j e'. j < length (m_Workers s) \<longrightarrow> m_Workers s ! j \<noteq> Crashed e'"
    unfolding inv_life_def by blast
  have "WorkerThread w s = Some ?s' \<and>
            slot tk < length (shared s) \<and> shared s ! slot tk = None \<and>
            shared ?s' = (shared s)[slot tk := Some (Failure e)] \<and>
            m_Workers ?s' = (m_Workers s)[w := Waiting] \<and>
            m_Tasks ?s' = m_Tasks s \<and> m_Stop ?s' = m_Stop s \<and>
            (\<forall>j e'. j < length (m_Workers ?s') \<longrightarrow> m_Workers ?s' ! j \<noteq> Crashed e')"
    using step pend nc' assms(5) by simp
  with nc show ?thesis by blast
qed

theorem C4_task_failure_is_captured_witness:
  "ThreadPool env0 2 = Constructed (fresh 2 :: nat pool) \<and>
   run racing (fresh 2) = Some racing_end \<and>
   1 < length (m_Workers racing_end) \<and>
   m_Workers racing_end ! 1 = Executing (Task 1 (Throws ''boom'')) \<and>
   body (Task 1 (Throws ''boom'') :: nat task) = Throws ''boom'' \<and>
   (\<exists>s'. WorkerThread 1 racing_end = Some s' \<and>
      shared s' = (shared racing_end)[1 := Some (Failure ''boom'')] \<and>
      m_Workers s' = (m_Workers racing_end)[1 := Waiting] \<and>
      m_Tasks s' = m_Tasks racing_end)"
proof -
  have h: "1 < length (m_Workers racing_end)"
    "m_Workers racing_end ! 1 = Executing (Task 1 (Throws ''boom''))"
    "body (Task 1 (Throws ''boom'') :: nat task) = Throws ''boom''"
    by (simp_all add: racing_end_def)
  from C4_task_failure_is_captured [OF ThreadPool_env0(2) run_racing h]
  obtain s' where "WorkerThread 1 racing_end = Some s'"
    "shared s' = (shared racing_end)[slot (Task 1 (Throws ''boom'') :: nat task) := Some (Failure ''boom'')]"
    "m_Workers s' = (m_Workers racing_end)[1 := Waiting]" "m_Tasks s' = m_Tasks racing_end"
    by blast
  then have "\<exists>s'. WorkerThread 1 racing_end = Some s' \<and>
      shared s' = (shared racing_end)[1 := Some (Failure ''boom'')] \<and>
      m_Workers s' = (m_Workers racing_end)[1 := Waiting] \<and>
      m_Tasks s' = m_Tasks racing_end"
    by simp
  with h ThreadPool_env0(2) run_racing show ?thesis by blast
qed

subsection \<open>C5: the result handle\<close>

text \<open>
  C5, as stated, lets a handle be read any number of times after completion, each read
  observing the same outcome. The handle that \<^verbatim>\<open>Submit\<close> returns is a \<^verbatim>\<open>std::future\<close>
  (lines 66 and 78): its first \<^verbatim>\<open>get\<close> hands the outcome over and leaves the handle without
  shared state (\<^verbatim>\<open>valid()\<close> is false), and \<^verbatim>\<open>get\<close> on such a handle is outside the contract
  of \<^verbatim>\<open>std::future\<close>. In the execution \<open>demo1\<close> the handle of the second task yields the
  failure once; what is left is the handle without shared state, and a second read of it
  is not a read of the outcome.
\<close>

theorem C5_counterexample:
  "Submit (Throws ''boom'') one_queued = (Inr (Future (Some 1)), two_queued) \<and>
   run demo1_tail two_queued = Some demo1_end \<and>
   future_get (Future (Some 1)) demo1_end = (Got (Failure ''boom''), Future None) \<and>
   future_get (Future None) demo1_end = (Undefined, Future None)"
proof -
  have "future_get (Future (Some 1)) demo1_end = (Got (Failure ''boom''), Future None)"
    "future_get (Future None) demo1_end = (Undefined, Future None)"
    by (simp_all add: future_get_def demo1_end_def)
  with Submit_one_queued run_demo1_tail show ?thesis by blast
qed

text \<open>
  C5, amended. For a task that \<^verbatim>\<open>Submit\<close> accepted with handle \<open>fut\<close>, its shared state is
  written exactly once, with the outcome of the task's own callable (the value returned or
  the failure thrown). In every later state of the pool it has been written at most once.
  While it has not been written, \<^verbatim>\<open>get\<close> on the handle blocks and some worker can take a
  step that takes one off the work that remains. The steps of the workers alone,
  \<open>remaining s3\<close> of them and with the pool in the same phase of its life, lead to a state in
  which it has been written once. Once written it stays written, once and with the same
  outcome, in every state that follows; a \<^verbatim>\<open>get\<close> on the handle then yields that outcome and
  leaves the handle without shared state, so that a further \<^verbatim>\<open>get\<close> on the same handle is
  outside the contract and does not observe the outcome. When the destructor has returned
  it has been written.
\<close>

theorem C5_result_written_once_read_once:
  assumes "ThreadPool env t = Constructed p" and "run acts1 p = Some s1"
    and "Submit func s1 = (Inr fut, s2)" and "run acts2 s2 = Some s3"
  shows "\<exists>h. fut = Future (Some h) \<and> count_list (finished s3) h \<le> 1 \<and>
           (h \<notin> set (finished s3) \<longrightarrow>
              shared s3 ! h = None \<and> future_get fut s3 = (Blocks, fut) \<and>
              (\<exists>w s'. WorkerThread w s3 = Some s' \<and> remaining s' + 1 = remaining s3)) \<and>
           (\<exists>acts3 s4. run acts3 s3 = Some s4 \<and> list_all is_worker_step acts3 \<and>
              length acts3 = remaining s3 \<and> phase s4 = phase s3 \<and>
              count_list (finished s4) h = 1 \<and> shared s4 ! h = Some (outcome_of func)) \<and>
           (h \<in> set (finished s3) \<longrightarrow>
              count_list (finished s3) h = 1 \<and>
              shared s3 ! h = Some (outcome_of func) \<and>
              future_get fut s3 = (Got (outcome_of func), Future None) \<and>
              future_get (snd (future_get fut s3)) s3 = (Undefined, Future None) \<and>
              (\<forall>acts3 s4. run acts3 s3 = Some s4 \<longrightarrow>
                 count_list (finished s4) h = 1 \<and> shared s4 ! h = Some (outcome_of func))) \<and>
           (phase s3 = Destroyed \<longrightarrow> h \<in> set (finished s3))"
proof -
  let ?h = "length (shared s1)"
  note c1 = reachable_invariant(1) [OF assms(1,2)] and l1 = reachable_invariant(2) [OF assms(1,2)]
  from assms(3) have n: "\<not> m_Stop s1" and fut: "fut = Future (Some ?h)"
    and s2: "s2 = snd (Submit func s1)"
    by (cases rule: Submit_cases [of s1 func]; simp)+
  from s2 have f2: "fire (Call_Submit func) s1 = Some s2" by simp
  with assms(2) have r2: "run (acts1 @ [Call_Submit func]) p = Some s2"
    by (simp add: run_append)
  with assms(4) have r3: "run ((acts1 @ [Call_Submit func]) @ acts2) p = Some s3"
    by (simp only: run_append option.case)
  note c2 = reachable_invariant(1) [OF assms(1) r2] and l2 = reachable_invariant(2) [OF assms(1) r2]
  note c3 = reachable_invariant(1) [OF assms(1) r3] and l3 = reachable_invariant(2) [OF assms(1) r3]
  from reachable_invariant(3) [OF assms(1) r3] have n3: "m_Workers s3 \<noteq> []" by auto
  from inv_body_Submit [OF c1 n, of func] s2 have b2: "inv_body ?h func s2" by simp
  from inv_body_run [OF c2 l2 b2 assms(4)] have b3: "inv_body ?h func s3" .
  then have len: "?h < length (shared s3)" by (simp add: inv_body_def)
  from c3 len have acc: "?h \<in> set (accepted s3)" by (simp add: inv_core_def inv_queue_def)
  have written: "count_list (finished s) ?h = 1 \<and> shared s ! ?h = Some (outcome_of func)"
    if c: "inv_core s" and b: "inv_body ?h func s" and f: "?h \<in> set (finished s)" for s :: "'a pool"
  proof -
    from f have "count_list (finished s) ?h \<noteq> 0" by (simp add: count_list_0_iff)
    with count_le_one(3) [OF c, of ?h] have "count_list (finished s) ?h = 1" by linarith
    moreover from c f have "shared s ! ?h \<noteq> None" by (simp add: inv_core_def inv_ready_def)
    with b have "shared s ! ?h = Some (outcome_of func)" by (auto simp: inv_body_def)
    ultimately show ?thesis by blast
  qed
  from c3 have rdy: "?h \<in> set (finished s3) \<longleftrightarrow> shared s3 ! ?h \<noteq> None"
    using len by (simp add: inv_core_def inv_ready_def)
  have once: "count_list (finished s3) ?h \<le> 1" by (rule count_le_one(3) [OF c3])
  have work: "\<exists>w s'. WorkerThread w s3 = Some s' \<and> remaining s' + 1 = remaining s3"
    if nf: "?h \<notin> set (finished s3)"
  proof -
    have "0 < remaining s3"
    proof (rule ccontr)
      assume "\<not> 0 < remaining s3"
      then have "remaining s3 = 0" by simp
      from all_done(2) [OF c3 this] have "set (finished s3) = set (accepted s3)"
        by (rule mset_eq_setD)
      with acc nf show False by simp
    qed
    from worker_can_work [OF c3 l3 n3 this] show ?thesis .
  qed
  have blk: "?h \<notin> set (finished s3) \<longrightarrow>
      shared s3 ! ?h = None \<and> future_get fut s3 = (Blocks, fut) \<and>
      (\<exists>w s'. WorkerThread w s3 = Some s' \<and> remaining s' + 1 = remaining s3)"
    using rdy len fut work by (simp add: future_get_def)
  from workers_can_finish_all [OF c3 l3 n3] obtain acts3 s4
    where a: "run acts3 s3 = Some s4" "list_all is_worker_step acts3" "length acts3 = remaining s3"
      "remaining s4 = 0" "phase s4 = phase s3" "accepted s4 = accepted s3"
    by blast
  from run_invariant [OF c3 l3 a(1)] have c4: "inv_core s4" and l4: "inv_life s4" by blast+
  from inv_body_run [OF c3 l3 b3 a(1)] have b4: "inv_body ?h func s4" .
  from all_done(2) [OF c4 a(4)] have "set (finished s4) = set (accepted s4)"
    by (rule mset_eq_setD)
  with acc a(6) have "?h \<in> set (finished s4)" by simp
  from written [OF c4 b4 this] a
  have reach: "\<exists>acts3 s4. run acts3 s3 = Some s4 \<and> list_all is_worker_step acts3 \<and>
              length acts3 = remaining s3 \<and> phase s4 = phase s3 \<and>
              count_list (finished s4) ?h = 1 \<and> shared s4 ! ?h = Some (outcome_of func)"
    by blast
  have val: "count_list (finished s3) ?h = 1 \<and> shared s3 ! ?h = Some (outcome_of func)"
    if "?h \<in> set (finished s3)"
    using written [OF c3 b3 that] .
  have get: "future_get fut s3 = (Got (outcome_of func), Future None) \<and>
      future_get (snd (future_get fut s3)) s3 = (Undefined, Future None)"
    if "?h \<in> set (finished s3)"
    using val [OF that] len fut by (simp add: future_get_def)
  have later: "count_list (finished s4) ?h = 1 \<and> shared s4 ! ?h = Some (outcome_of func)"
    if f: "?h \<in> set (finished s3)" and r4: "run acts3 s3 = Some s4" for acts3 s4
  proof -
    from val [OF f] have v: "shared s3 ! ?h = Some (outcome_of func)" by blast
    from shared_stable_run [OF r4 len v]
    have st: "?h < length (shared s4)" "shared s4 ! ?h = Some (outcome_of func)" by simp_all
    from run_invariant [OF c3 l3 r4] have c4: "inv_core s4" by blast
    with st have "?h \<in> set (finished s4)" by (simp add: inv_core_def inv_ready_def)
    from written [OF c4 inv_body_run [OF c3 l3 b3 r4] this] show ?thesis .
  qed
  have fin: "?h \<in> set (finished s3)" if d: "phase s3 = Destroyed"
  proof -
    from drained(2) [OF c3 l3 n3 d] have "set (finished s3) = set (accepted s3)"
      by (rule mset_eq_setD)
    with acc show ?thesis by simp
  qed
  have "fut = Future (Some ?h) \<and> count_list (finished s3) ?h \<le> 1 \<and>
           (?h \<notin> set (finished s3) \<longrightarrow>
              shared s3 ! ?h = None \<and> future_get fut s3 = (Blocks, fut) \<and>
              (\<exists>w s'. WorkerThread w s3 = Some s' \<and> remaining s' + 1 = remaining s3)) \<and>
           (\<exists>acts3 s4. run acts3 s3 = Some s4 \<and> list_all is_worker_step acts3 \<and>
              length acts3 = remaining s3 \<and> phase s4 = phase s3 \<and>
              count_list (finished s4) ?h = 1 \<and> shared s4 ! ?h = Some (outcome_of func)) \<and>
           (?h \<in> set (finished s3) \<longrightarrow>
              count_list (finished s3) ?h = 1 \<and>
              shared s3 ! ?h = Some (outcome_of func) \<and>
              future_get fut s3 = (Got (outcome_of func), Future None) \<and>
              future_get (snd (future_get fut s3)) s3 = (Undefined, Future None) \<and>
              (\<forall>acts3 s4. run acts3 s3 = Some s4 \<longrightarrow>
                 count_list (finished s4) ?h = 1 \<and> shared s4 ! ?h = Some (outcome_of func))) \<and>
           (phase s3 = Destroyed \<longrightarrow> ?h \<in> set (finished s3))"
    using fut once blk reach val get later fin by blast
  then show ?thesis by (rule exI)
qed

theorem C5_result_written_once_read_once_witness:
  "ThreadPool env0 1 = Constructed (fresh 1 :: nat pool) \<and>
   run [Call_Submit (Returns 10)] (fresh 1) = Some one_queued \<and>
   Submit (Throws ''boom'') one_queued = (Inr (Future (Some 1)), two_queued) \<and>
   run demo1_tail two_queued = Some demo1_end \<and>
   1 \<in> set (finished demo1_end) \<and> phase demo1_end = Destroyed \<and>
   count_list (finished demo1_end) 1 = 1 \<and>
   shared demo1_end ! 1 = Some (outcome_of (Throws ''boom'')) \<and>
   future_get (Future (Some 1)) demo1_end = (Got (outcome_of (Throws ''boom'')), Future None) \<and>
   future_get (snd (future_get (Future (Some 1)) demo1_end)) demo1_end = (Undefined, Future None) \<and>
   run [] two_queued = Some two_queued \<and> 1 \<notin> set (finished two_queued) \<and>
   future_get (Future (Some 1)) two_queued = (Blocks, Future (Some 1)) \<and>
   (\<exists>w s'. WorkerThread w two_queued = Some s' \<and> remaining s' + 1 = remaining two_queued) \<and>
   (\<exists>acts3 s4. run acts3 two_queued = Some s4 \<and> list_all is_worker_step acts3 \<and>
      length acts3 = remaining two_queued \<and> phase s4 = phase two_queued \<and>
      count_list (finished s4) 1 = 1 \<and> shared s4 ! 1 = Some (outcome_of (Throws ''boom'')))"
proof -
  have f: "1 \<in> set (finished demo1_end)" and d: "phase demo1_end = Destroyed"
    by (simp_all add: demo1_end_def)
  have e: "run [] two_queued = Some two_queued" and n: "1 \<notin> set (finished two_queued)"
    by (simp_all add: two_queued_def)
  from C5_result_written_once_read_once
    [OF ThreadPool_env0(1) run_one_queued Submit_one_queued e]
  obtain k where k: "Future (Some 1) = Future (Some k)"
    and b: "k \<notin> set (finished two_queued) \<longrightarrow>
              shared two_queued ! k = None \<and>
              future_get (Future (Some 1)) two_queued = (Blocks, Future (Some 1)) \<and>
              (\<exists>w s'. WorkerThread w two_queued = Some s' \<and> remaining s' + 1 = remaining two_queued)"
    and r: "\<exists>acts3 s4. run acts3 two_queued = Some s4 \<and> list_all is_worker_step acts3 \<and>
              length acts3 = remaining two_queued \<and> phase s4 = phase two_queued \<and>
              count_list (finished s4) k = 1 \<and> shared s4 ! k = Some (outcome_of (Throws ''boom''))"
    by blast
  from k have k1: "k = 1" by simp
  from b n k1 have blocks: "future_get (Future (Some 1)) two_queued = (Blocks, Future (Some 1))"
    and steps: "\<exists>w s'. WorkerThread w two_queued = Some s' \<and> remaining s' + 1 = remaining two_queued"
    by blast+
  from r k1 have reach: "\<exists>acts3 s4. run acts3 two_queued = Some s4 \<and> list_all is_worker_step acts3 \<and>
      length acts3 = remaining two_queued \<and> phase s4 = phase two_queued \<and>
      count_list (finished s4) 1 = 1 \<and> shared s4 ! 1 = Some (outcome_of (Throws ''boom''))"
    by blast
  from C5_result_written_once_read_once
    [OF ThreadPool_env0(1) run_one_queued Submit_one_queued run_demo1_tail]
  obtain h where h: "Future (Some 1) = Future (Some h)"
    and g: "h \<in> set (finished demo1_end) \<longrightarrow>
              count_list (finished demo1_end) h = 1 \<and>
              shared demo1_end ! h = Some (outcome_of (Throws ''boom'')) \<and>
              future_get (Future (Some 1)) demo1_end = (Got (outcome_of (Throws ''boom'')), Future None) \<and>
              future_get (snd (future_get (Future (Some 1)) demo1_end)) demo1_end =
                (Undefined, Future None)"
    by blast
  from h have "h = 1" by simp
  with g f have "count_list (finished demo1_end) 1 = 1"
    "shared demo1_end ! 1 = Some (outcome_of (Throws ''boom''))"
    "future_get (Future (Some 1)) demo1_end = (Got (outcome_of (Throws ''boom'')), Future None)"
    "future_get (snd (future_get (Future (Some 1)) demo1_end)) demo1_end = (Undefined, Future None)"
    by blast+
  with f d e n blocks steps reach ThreadPool_env0(1) run_one_queued Submit_one_queued run_demo1_tail
  show ?thesis by blast
qed

subsection \<open>C6: the number of workers\<close>

text \<open>
  C6. For every requested thread count \<open>t\<close>, the constructor starts \<open>max t 1\<close> workers at
  once, all of them waiting, and \<open>ThreadCount\<close> is \<open>max t 1\<close> in the new pool and in every state
  the pool reaches afterwards; \<open>t = 0\<close> gives one worker. The hypotheses say that the platform
  lets the constructor complete: it can create that many threads, and a vector that long
  is within \<^verbatim>\<open>max_size()\<close> and within the memory there is.
\<close>

theorem C6_thread_count:
  assumes "max t 1 \<le> thread_limit env" and "max t 1 \<le> vector_max_size env"
    and "max t 1 \<le> vector_memory env"
  shows "\<exists>p. ThreadPool env t = Constructed p \<and>
           m_Workers p = replicate (max t 1) Waiting \<and>
           ThreadCount p = max t 1 \<and>
           (\<forall>acts s. run acts p = Some s \<longrightarrow> ThreadCount s = max t 1)"
proof -
  let ?p = "fresh (max t 1) :: 'a pool"
  from assms have c: "ThreadPool env t = Constructed ?p"
    by (simp add: ThreadPool_Constructed_iff)
  have "\<forall>acts s. run acts ?p = Some s \<longrightarrow> ThreadCount s = max t 1"
    using reachable_invariant(3) [OF c] by (simp add: ThreadCount_def)
  with c show ?thesis
    by (intro exI [of _ ?p]) (simp add: fresh_def ThreadCount_def)
qed

theorem C6_thread_count_witness:
  "max 0 1 \<le> thread_limit env0 \<and> max 0 1 \<le> vector_max_size env0 \<and>
   max 0 1 \<le> vector_memory env0 \<and>
   ThreadPool env0 0 = Constructed (fresh 1 :: nat pool) \<and>
   ThreadCount (fresh 1 :: nat pool) = 1 \<and>
   (\<exists>s. run [Call_Submit (Returns 7), Step_Worker 0, Step_Worker 0] (fresh 1 :: nat pool) = Some s \<and>
        ThreadCount s = 1)"
proof -
  have h: "max 0 1 \<le> thread_limit env0" "max 0 1 \<le> vector_max_size env0"
    "max 0 1 \<le> vector_memory env0"
    by (simp_all add: env0_def)
  from C6_thread_count [OF h] obtain p :: "nat pool"
    where p: "ThreadPool env0 0 = Constructed p" "ThreadCount p = max 0 1"
      "\<forall>acts s. run acts p = Some s \<longrightarrow> ThreadCount s = max 0 1"
    by blast
  have e: "ThreadPool env0 0 = Constructed (fresh 1 :: nat pool)"
    by (simp add: ThreadPool_Constructed_iff env0_def)
  with p(1) have eq: "p = fresh 1" by simp
  have "run [Call_Submit (Returns 7), Step_Worker 0, Step_Worker 0] (fresh 1 :: nat pool) \<noteq> None"
    by code_simp
  then obtain s
    where r: "run [Call_Submit (Returns 7), Step_Worker 0, Step_Worker 0] (fresh 1 :: nat pool) = Some s"
    by blast
  from p(3) eq have "\<forall>acts s. run acts (fresh 1 :: nat pool) = Some s \<longrightarrow> ThreadCount s = 1"
    by simp
  with r have "ThreadCount s = 1" by blast
  with r have x: "\<exists>s. run [Call_Submit (Returns 7), Step_Worker 0, Step_Worker 0] (fresh 1 :: nat pool) = Some s \<and>
        ThreadCount s = 1"
    by blast
  from p(2) eq have "ThreadCount (fresh 1 :: nat pool) = 1" by simp
  with h e x show ?thesis by blast
qed

subsection \<open>C7: at most as many running tasks as workers\<close>

text \<open>
  C7. In every state of a pool the number of workers that are inside the call of a task
  is at most \<open>ThreadCount\<close>; it is the number of tasks that have begun to run and not
  finished; and \<open>ThreadCount\<close> is what it was when the pool was constructed, \<open>max t 1\<close>.
\<close>

theorem C7_bounded_concurrency:
  assumes "ThreadPool env t = Constructed p" and "run acts p = Some s"
  shows "length (filter is_executing (m_Workers s)) \<le> ThreadCount s \<and>
         length (begun s) = length (finished s) + length (filter is_executing (m_Workers s)) \<and>
         length (begun s) - length (finished s) \<le> ThreadCount s \<and>
         ThreadCount s = ThreadCount p \<and> ThreadCount s = max t 1"
proof -
  from reachable_invariant(1) [OF assms] have "inv_flow s" by (simp add: inv_core_def)
  then have "size (mset (begun s)) = size (mset (finished s) + sum_list (map executing (m_Workers s)))"
    by (simp add: inv_flow_def)
  then have b: "length (begun s) = length (finished s) + length (filter is_executing (m_Workers s))"
    by (simp add: size_executing)
  have le: "length (filter is_executing (m_Workers s)) \<le> length (m_Workers s)"
    by (rule length_filter_le)
  from assms(1) have "length (m_Workers p) = max t 1"
    by (simp add: ThreadPool_Constructed_iff fresh_def)
  with reachable_invariant(3) [OF assms] b le show ?thesis
    by (simp add: ThreadCount_def)
qed

theorem C7_bounded_concurrency_witness:
  "ThreadPool env0 2 = Constructed (fresh 2 :: nat pool) \<and>
   run racing (fresh 2) = Some racing_end \<and>
   length (filter is_executing (m_Workers racing_end)) = 2 \<and>
   length (filter is_executing (m_Workers racing_end)) \<le> ThreadCount racing_end \<and>
   length (begun racing_end) - length (finished racing_end) \<le> ThreadCount racing_end \<and>
   ThreadCount racing_end = ThreadCount (fresh 2 :: nat pool)"
proof -
  have "length (filter is_executing (m_Workers racing_end)) = 2"
    by (simp add: racing_end_def)
  with C7_bounded_concurrency [OF ThreadPool_env0(2) run_racing] ThreadPool_env0(2) run_racing
  show ?thesis by blast
qed

subsection \<open>C8: a worker thread that cannot be created\<close>

text \<open>
  C8, as stated, has the constructor tear down the workers already started before the
  failure propagates. The constructor (lines 34-43) has no handler and tears nothing down:
  on the platform \<open>env1\<close>, asked for two workers, it starts one, the creation of the second
  throws, and the exception leaves the body of the constructor with the worker that was
  started still waiting, the stop flag unset and no thread joined.
\<close>

theorem C8_counterexample:
  "ctor_loop (thread_limit env1) (max 2 1) 0 [] = ([Waiting :: nat worker], Some system_error) \<and>
   ThreadPool env1 2 = (Abandoned [Waiting] system_error :: nat constructed)"
  by (simp add: ThreadPool_failure env1_def ctor_loop_eq)

text \<open>
  C8, amended. When \<^verbatim>\<open>reserve\<close> has succeeded and the platform can create fewer threads
  than the constructor asks for, the constructor returns no pool. The loop stops at the
  first creation that fails, with the workers created until then still waiting: the
  constructor does not set the stop flag or join them. When none had been created the
  exception reaches the caller; otherwise the exception leaves the body of the constructor
  with those workers started, and nothing is said of what follows.
\<close>

theorem C8_failed_construction:
  assumes "max t 1 \<le> vector_max_size env" and "max t 1 \<le> vector_memory env"
    and "thread_limit env < max t 1"
  shows "ctor_loop (thread_limit env) (max t 1) 0 [] = (replicate (thread_limit env) Waiting, Some system_error) \<and>
         (\<forall>p. ThreadPool env t \<noteq> Constructed p) \<and>
         ThreadPool env t =
           (if thread_limit env = 0 then Propagated system_error
            else Abandoned (replicate (thread_limit env) Waiting) system_error)"
  using assms by (auto simp: ThreadPool_failure ctor_loop_eq)

theorem C8_failed_construction_witness:
  "max 3 1 \<le> vector_max_size env1 \<and> max 3 1 \<le> vector_memory env1 \<and>
   thread_limit env1 < max 3 1 \<and>
   ctor_loop (thread_limit env1) (max 3 1) 0 [] = ([Waiting :: nat worker], Some system_error) \<and>
   ThreadPool env1 3 = (Abandoned [Waiting] system_error :: nat constructed) \<and>
   max 0 1 \<le> vector_max_size (env1\<lparr>thread_limit := 0\<rparr>) \<and>
   max 0 1 \<le> vector_memory (env1\<lparr>thread_limit := 0\<rparr>) \<and>
   thread_limit (env1\<lparr>thread_limit := 0\<rparr>) < max 0 1 \<and>
   ThreadPool (env1\<lparr>thread_limit := 0\<rparr>) 0 = (Propagated system_error :: nat constructed)"
proof -
  have h: "max 3 1 \<le> vector_max_size env1" "max 3 1 \<le> vector_memory env1"
    "thread_limit env1 < max 3 1"
    and k: "max 0 1 \<le> vector_max_size (env1\<lparr>thread_limit := 0\<rparr>)"
    "max 0 1 \<le> vector_memory (env1\<lparr>thread_limit := 0\<rparr>)"
    "thread_limit (env1\<lparr>thread_limit := 0\<rparr>) < max 0 1"
    by (simp_all add: env1_def)
  have l: "thread_limit env1 = 1" "thread_limit (env1\<lparr>thread_limit := 0\<rparr>) = 0"
    by (simp_all add: env1_def)
  have "ctor_loop (thread_limit env1) (max 3 1) 0 [] =
          (replicate (thread_limit env1) (Waiting :: nat worker), Some system_error) \<and>
        (\<forall>p :: nat pool. ThreadPool env1 3 \<noteq> Constructed p) \<and>
        ThreadPool env1 3 =
          (if thread_limit env1 = 0 then Propagated system_error
           else (Abandoned (replicate (thread_limit env1) Waiting) system_error :: nat constructed))"
    by (rule C8_failed_construction [OF h])
  with l(1)
  have a: "ctor_loop (thread_limit env1) (max 3 1) 0 [] = ([Waiting :: nat worker], Some system_error)"
    "ThreadPool env1 3 = (Abandoned [Waiting] system_error :: nat constructed)"
    by simp_all
  have "ctor_loop (thread_limit (env1\<lparr>thread_limit := 0\<rparr>)) (max 0 1) 0 [] =
          (replicate (thread_limit (env1\<lparr>thread_limit := 0\<rparr>)) (Waiting :: nat worker), Some system_error) \<and>
        (\<forall>p :: nat pool. ThreadPool (env1\<lparr>thread_limit := 0\<rparr>) 0 \<noteq> Constructed p) \<and>
        ThreadPool (env1\<lparr>thread_limit := 0\<rparr>) 0 =
          (if thread_limit (env1\<lparr>thread_limit := 0\<rparr>) = 0 then Propagated system_error
           else (Abandoned (replicate (thread_limit (env1\<lparr>thread_limit := 0\<rparr>)) Waiting) system_error
                   :: nat constructed))"
    by (rule C8_failed_construction [OF k])
  with l(2)
  have b: "ThreadPool (env1\<lparr>thread_limit := 0\<rparr>) 0 = (Propagated system_error :: nat constructed)"
    by simp
  from h k a b show ?thesis by blast
qed

subsection \<open>C9: the process-wide pool\<close>



subsection \<open>C10: a rejected Submit changes nothing\<close>

text \<open>
  C10. Whenever \<^verbatim>\<open>Submit\<close> ends with an exception, the stop flag was set and the pool
  after the call is the pool before it: the queue, the stop flag, the workers and the
  record of the tasks begun are the same, and every execution continues from there as if
  the call had not been made, so the callable passed to it is never run.
\<close>

theorem C10_rejected_submit_changes_nothing:
  assumes "fst (Submit func s) = Inl e"
  shows "m_Stop s \<and> snd (Submit func s) = s \<and>
         m_Tasks (snd (Submit func s)) = m_Tasks s \<and>
         m_Stop (snd (Submit func s)) = m_Stop s \<and>
         m_Workers (snd (Submit func s)) = m_Workers s \<and>
         begun (snd (Submit func s)) = begun s \<and>
         run (Call_Submit func # acts) s = run acts s"
  using assms by (cases rule: Submit_cases [of s func]) simp_all

theorem C10_rejected_submit_changes_nothing_witness:
  "fst (Submit (Returns 5) stopping) = Inl (runtime_error ''Cannot submit task to stopped ThreadPool'') \<and>
   m_Stop stopping \<and> snd (Submit (Returns 5) stopping) = stopping \<and>
   m_Tasks (snd (Submit (Returns 5) stopping)) = m_Tasks stopping \<and>
   m_Workers (snd (Submit (Returns 5) stopping)) = m_Workers stopping \<and>
   begun (snd (Submit (Returns 5) stopping)) = begun stopping \<and>
   run [Call_Submit (Returns 5), Step_Worker 0] stopping = run [Step_Worker 0] stopping"
proof -
  have h: "fst (Submit (Returns 5) stopping) = Inl (runtime_error ''Cannot submit task to stopped ThreadPool'')"
    by (simp add: Submit_def stopping_def)
  from C10_rejected_submit_changes_nothing [OF h, of "[Step_Worker 0]"] h
  show ?thesis by blast
qed

end
